theory Spec2Isabelle
  imports Main "HOL-Library.AList" "HOL-Library.Sublist"
begin

section \<open>The recycle-bin store of CinnaOS.py\<close>

text \<open>
  The store is the five functions \<^verbatim>\<open>load_recycle_index\<close>, \<^verbatim>\<open>save_recycle_index\<close>,
  \<^verbatim>\<open>move_to_recycle\<close>, \<^verbatim>\<open>restore_from_recycle\<close> and \<^verbatim>\<open>empty_recycle\<close> of
  \<^verbatim>\<open>src/CinnaOS.py\<close> (lines 152-228). They act on the file system, so the model
  passes the file system along explicitly: each function takes a state and returns its
  result together with the state it leaves behind. An exception that leaves a
  function is the \<open>Inl\<close> of its result.

  The library calls are modelled with their POSIX behaviour (\<^verbatim>\<open>posixpath\<close>,
  \<^verbatim>\<open>pathlib.PurePosixPath\<close>): the only paths the program writes itself use forward
  slashes. The operating system resolves a path by walking it from the root or the
  working directory (there are no symbolic links), and a file operation fails exactly
  when the shape of the file system forbids it (a missing or non-directory component on
  the way, a directory where a file is needed, a missing file).
\<close>

subsection \<open>JSON values and Python's dynamic checks\<close>

datatype json =
    JNull
  | JBool bool
  | JNum int
  | JStr string
  | JArr "json list"
  | JObj "(string \<times> json) list"

text \<open>
  Numbers are integers here: the store writes none. A Python \<^verbatim>\<open>dict\<close> with string
  keys is the association list of a \<open>JObj\<close>, in insertion order: \<^verbatim>\<open>d[k] = v\<close> is
  \<open>AList.update\<close> (replace in place, else append), \<^verbatim>\<open>d.pop(k, None)\<close> is
  \<open>AList.delete\<close>, \<^verbatim>\<open>d.get(k)\<close> is \<open>map_of\<close> with \<open>JNull\<close> for a missing key.
\<close>

datatype py_error =
    FileNotFoundError
  | FileExistsError
  | IsADirectoryError
  | NotADirectoryError
  | JSONDecodeError
  | TypeError
  | AttributeError
  | KeyError string

text \<open>The truth value Python gives a value in \<^verbatim>\<open>if v:\<close>.\<close>

fun truthy :: "json \<Rightarrow> bool" where
  "truthy JNull = False"
| "truthy (JBool b) = b"
| "truthy (JNum n) = (n \<noteq> 0)"
| "truthy (JStr s) = (s \<noteq> [])"
| "truthy (JArr xs) = (xs \<noteq> [])"
| "truthy (JObj kvs) = (kvs \<noteq> [])"

text \<open>\<^verbatim>\<open>key in idx\<close>: dictionary membership, list membership, substring test, or a TypeError.\<close>

fun py_contains :: "json \<Rightarrow> string \<Rightarrow> py_error + bool" where
  "py_contains (JObj kvs) k = Inr (map_of kvs k \<noteq> None)"
| "py_contains (JArr xs) k = Inr (JStr k \<in> set xs)"
| "py_contains (JStr s) k = Inr (sublist k s)"
| "py_contains _ k = Inl TypeError"

text \<open>\<^verbatim>\<open>idx[key]\<close> with a string key: only a dictionary can be subscripted by a string.\<close>

fun py_getitem :: "json \<Rightarrow> string \<Rightarrow> py_error + json" where
  "py_getitem (JObj kvs) k = (case map_of kvs k of None \<Rightarrow> Inl (KeyError k) | Some v \<Rightarrow> Inr v)"
| "py_getitem _ k = Inl TypeError"

text \<open>\<^verbatim>\<open>idx[key] = v\<close> with a string key.\<close>

fun py_setitem :: "json \<Rightarrow> string \<Rightarrow> json \<Rightarrow> py_error + json" where
  "py_setitem (JObj kvs) k v = Inr (JObj (AList.update k v kvs))"
| "py_setitem _ k v = Inl TypeError"

text \<open>\<^verbatim>\<open>entry.get(k)\<close>: only a dictionary has the method.\<close>

fun py_get :: "json \<Rightarrow> string \<Rightarrow> py_error + json" where
  "py_get (JObj kvs) k = Inr (case map_of kvs k of None \<Rightarrow> JNull | Some v \<Rightarrow> v)"
| "py_get _ k = Inl AttributeError"

text \<open>\<^verbatim>\<open>idx.pop(key, None)\<close>; it is only reached with a dictionary.\<close>

fun py_pop :: "json \<Rightarrow> string \<Rightarrow> py_error + json" where
  "py_pop (JObj kvs) k = Inr (JObj (AList.delete k kvs))"
| "py_pop _ k = Inl AttributeError"

text \<open>\<^verbatim>\<open>Path(v)\<close>: the argument has to be a string.\<close>

fun as_path :: "json \<Rightarrow> py_error + string" where
  "as_path (JStr s) = Inr s"
| "as_path _ = Inl TypeError"

subsection \<open>Paths\<close>

definition sep :: char where
  "sep = CHR ''/''"

text \<open>\<^verbatim>\<open>path.split('/')\<close>\<close>

fun split_sep :: "string \<Rightarrow> string list" where
  "split_sep [] = [[]]"
| "split_sep (c # cs) =
     (if c = sep then [] # split_sep cs
      else (case split_sep cs of [] \<Rightarrow> [[c]] | x # xs \<Rightarrow> (c # x) # xs))"

text \<open>\<^verbatim>\<open>'/'.join(comps)\<close>\<close>

fun join_sep :: "string list \<Rightarrow> string" where
  "join_sep [] = []"
| "join_sep [x] = x"
| "join_sep (x # y # ys) = x @ sep # join_sep (y # ys)"

text \<open>\<^verbatim>\<open>posixpath.basename\<close>: what follows the last separator.\<close>

definition basename :: "string \<Rightarrow> string" where
  "basename p = rev (takeWhile (\<lambda>c. c \<noteq> sep) (rev p))"

definition isabs :: "string \<Rightarrow> bool" where
  "isabs p = (case p of [] \<Rightarrow> False | c # _ \<Rightarrow> c = sep)"

text \<open>\<^verbatim>\<open>posixpath.join(a, b)\<close>\<close>

definition path_join :: "string \<Rightarrow> string \<Rightarrow> string" where
  "path_join a b =
     (if isabs b then b
      else if a = [] \<or> last a = sep then a @ b
      else a @ sep # b)"

text \<open>
  The loop of \<^verbatim>\<open>posixpath.normpath\<close> over the components, \<open>new\<close> being \<^verbatim>\<open>new_comps\<close>
  and \<open>slashes\<close> the number of initial slashes that are kept.
\<close>

definition norm_step :: "nat \<Rightarrow> string list \<Rightarrow> string \<Rightarrow> string list" where
  "norm_step slashes new part =
     (if part = [] \<or> part = ''.'' then new
      else if part \<noteq> ''..'' \<or> (slashes = 0 \<and> new = []) \<or> (new \<noteq> [] \<and> last new = ''..'')
        then new @ [part]
      else if new \<noteq> [] then butlast new
      else new)"

definition initial_slashes :: "string \<Rightarrow> nat" where
  "initial_slashes p =
     (if \<not> isabs p then 0
      else if take 2 p = [sep, sep] \<and> take 3 p \<noteq> [sep, sep, sep] then 2
      else 1)"

definition normpath :: "string \<Rightarrow> string" where
  "normpath p =
     (if p = [] then ''.''
      else let n = initial_slashes p;
               comps = foldl (norm_step n) [] (split_sep p);
               q = replicate n sep @ join_sep comps
           in if q = [] then ''.'' else q)"

text \<open>\<^verbatim>\<open>os.path.abspath\<close>, \<open>wd\<close> being what \<^verbatim>\<open>os.getcwd()\<close> returns.\<close>

definition abspath :: "string \<Rightarrow> string \<Rightarrow> string" where
  "abspath wd p = normpath (if isabs p then p else path_join wd p)"

text \<open>
  \<^verbatim>\<open>pathlib.PurePosixPath\<close>: a path is kept as its initial slashes and its parts, the
  components other than the empty one and the dot. \<open>path_str\<close> gives the string of a
  path kept so, \<open>pure_str p\<close> is \<^verbatim>\<open>str(Path(p))\<close>. The parent of a path has the same
  slashes and all the parts but the last.
\<close>

definition pure_parts :: "string \<Rightarrow> string list" where
  "pure_parts p = filter (\<lambda>c. c \<noteq> [] \<and> c \<noteq> ''.'') (split_sep p)"

definition path_str :: "nat \<Rightarrow> string list \<Rightarrow> string" where
  "path_str slashes parts =
     (let q = replicate slashes sep @ join_sep parts in if q = [] then ''.'' else q)"

definition pure_str :: "string \<Rightarrow> string" where
  "pure_str p = path_str (initial_slashes p) (pure_parts p)"

text \<open>\<^verbatim>\<open>str(Path(a) / b)\<close>\<close>

definition path_div :: "string \<Rightarrow> string \<Rightarrow> string" where
  "path_div a b = pure_str (path_join a b)"

text \<open>Decimal rendering of an integer, as \<^verbatim>\<open>f"{timestamp}"\<close> gives it.\<close>

definition digit_char :: "nat \<Rightarrow> char" where
  "digit_char d = char_of (48 + d)"

function digits :: "nat \<Rightarrow> string" where
  "digits n = (if n < 10 then [digit_char n] else digits (n div 10) @ [digit_char (n mod 10)])"
  by pat_completeness auto
termination
  by (relation "measure id") auto

declare digits.simps [simp del]

definition str_of_int :: "int \<Rightarrow> string" where
  "str_of_int i = (if i < 0 then CHR ''-'' # digits (nat (- i)) else digits (nat i))"

subsection \<open>The file system\<close>

text \<open>
  A location is the list of directory names from the root. A file holds either the text
  that \<^verbatim>\<open>json.dumps\<close> writes for a value, which \<^verbatim>\<open>json.loads\<close> reads back as that
  value, or some other bytes, which \<^verbatim>\<open>json.loads\<close> rejects.
\<close>

type_synonym loc = "string list"

datatype content = Bytes string | JsonText json

datatype node = File content | Dir

record fsys =
  files :: "loc \<Rightarrow> node option"
  cwd :: loc

type_synonym 'a result = "(py_error + 'a) \<times> fsys"

definition json_dumps :: "json \<Rightarrow> content" where
  "json_dumps v = JsonText v"

fun json_loads :: "content \<Rightarrow> py_error + json" where
  "json_loads (JsonText v) = Inr v"
| "json_loads (Bytes b) = Inl JSONDecodeError"

text \<open>\<^verbatim>\<open>os.getcwd()\<close>\<close>

definition getcwd :: "fsys \<Rightarrow> string" where
  "getcwd s = sep # join_sep (cwd s)"

definition node_at :: "fsys \<Rightarrow> loc \<Rightarrow> node option" where
  "node_at s l = (if l = [] then Some Dir else files s l)"

text \<open>The state with the node at a location replaced, or removed.\<close>

definition put :: "fsys \<Rightarrow> loc \<Rightarrow> node option \<Rightarrow> fsys" where
  "put s l n = s\<lparr>files := (files s)(l := n)\<rparr>"

definition is_dir :: "fsys \<Rightarrow> loc \<Rightarrow> bool" where
  "is_dir s l = (node_at s l = Some Dir)"

definition is_file :: "fsys \<Rightarrow> loc \<Rightarrow> bool" where
  "is_file s l = (case node_at s l of Some (File c) \<Rightarrow> True | _ \<Rightarrow> False)"

text \<open>
  Path resolution: the walk over the components of a path. Whatever component comes
  next, the place reached so far has to be a directory. The last component itself
  need not exist.
\<close>

fun walk :: "fsys \<Rightarrow> loc \<Rightarrow> string list \<Rightarrow> py_error + loc" where
  "walk s cur [] = Inr cur"
| "walk s cur (c # cs) =
     (case node_at s cur of
        None \<Rightarrow> Inl FileNotFoundError
      | Some (File b) \<Rightarrow> Inl NotADirectoryError
      | Some Dir \<Rightarrow>
        walk s (if c = [] \<or> c = ''.'' then cur
                else if c = ''..'' then butlast cur
                else cur @ [c]) cs)"

definition resolve :: "fsys \<Rightarrow> string \<Rightarrow> py_error + loc" where
  "resolve s p =
     (if p = [] then Inl FileNotFoundError
      else walk s (if isabs p then [] else cwd s) (split_sep p))"

text \<open>\<^verbatim>\<open>os.path.isfile(path)\<close> and \<^verbatim>\<open>Path.is_dir()\<close>: false on any error.\<close>

definition isfile :: "fsys \<Rightarrow> string \<Rightarrow> bool" where
  "isfile s p = (case resolve s p of Inl e \<Rightarrow> False | Inr l \<Rightarrow> is_file s l)"

definition isdir :: "fsys \<Rightarrow> string \<Rightarrow> bool" where
  "isdir s p = (case resolve s p of Inl e \<Rightarrow> False | Inr l \<Rightarrow> is_dir s l)"

text \<open>\<^verbatim>\<open>open(p, "rb")\<close>: the handle is the location of the file.\<close>

definition open_rb :: "fsys \<Rightarrow> string \<Rightarrow> py_error + loc" where
  "open_rb s p =
     (case resolve s p of
        Inl e \<Rightarrow> Inl e
      | Inr l \<Rightarrow>
        (case node_at s l of
           None \<Rightarrow> Inl FileNotFoundError
         | Some Dir \<Rightarrow> Inl IsADirectoryError
         | Some (File c) \<Rightarrow> Inr l))"

text \<open>\<^verbatim>\<open>open(p, "wb")\<close>: creates the file or truncates it.\<close>

definition open_wb :: "fsys \<Rightarrow> string \<Rightarrow> py_error + loc \<times> fsys" where
  "open_wb s p =
     (case resolve s p of
        Inl e \<Rightarrow> Inl e
      | Inr l \<Rightarrow>
        (case node_at s l of
           Some Dir \<Rightarrow> Inl IsADirectoryError
         | _ \<Rightarrow> Inr (l, put s l (Some (File (Bytes []))))))"

text \<open>\<^verbatim>\<open>read()\<close> and \<^verbatim>\<open>write(c)\<close> on a handle, in the state of the moment.\<close>

definition read_handle :: "fsys \<Rightarrow> loc \<Rightarrow> content" where
  "read_handle s l = (case node_at s l of Some (File c) \<Rightarrow> c | _ \<Rightarrow> Bytes [])"

definition write_handle :: "fsys \<Rightarrow> loc \<Rightarrow> content \<Rightarrow> fsys" where
  "write_handle s l c = put s l (Some (File c))"

text \<open>
  \<^verbatim>\<open>with open(src, "rb") as a, open(dst, "wb") as b: b.write(a.read())\<close>.
  The destination is truncated before the source is read.
\<close>

definition copy_bytes :: "fsys \<Rightarrow> string \<Rightarrow> string \<Rightarrow> py_error + fsys" where
  "copy_bytes s src dst =
     (case open_rb s src of
        Inl e \<Rightarrow> Inl e
      | Inr a \<Rightarrow>
        (case open_wb s dst of
           Inl e \<Rightarrow> Inl e
         | Inr (b, s1) \<Rightarrow> Inr (write_handle s1 b (read_handle s1 a))))"

text \<open>\<^verbatim>\<open>Path.read_text\<close> and \<^verbatim>\<open>Path.write_text\<close>\<close>

definition read_text :: "fsys \<Rightarrow> string \<Rightarrow> py_error + content" where
  "read_text s p = (case open_rb s p of Inl e \<Rightarrow> Inl e | Inr a \<Rightarrow> Inr (read_handle s a))"

definition write_text :: "fsys \<Rightarrow> string \<Rightarrow> content \<Rightarrow> py_error + fsys" where
  "write_text s p c =
     (case open_wb s p of Inl e \<Rightarrow> Inl e | Inr (b, s1) \<Rightarrow> Inr (write_handle s1 b c))"

text \<open>\<^verbatim>\<open>os.remove\<close> and \<^verbatim>\<open>Path.unlink\<close>\<close>

definition os_remove :: "fsys \<Rightarrow> string \<Rightarrow> py_error + fsys" where
  "os_remove s p =
     (case resolve s p of
        Inl e \<Rightarrow> Inl e
      | Inr l \<Rightarrow>
        (case node_at s l of
           None \<Rightarrow> Inl FileNotFoundError
         | Some Dir \<Rightarrow> Inl IsADirectoryError
         | Some (File c) \<Rightarrow> Inr (put s l None)))"

definition os_mkdir :: "fsys \<Rightarrow> string \<Rightarrow> py_error + fsys" where
  "os_mkdir s p =
     (case resolve s p of
        Inl e \<Rightarrow> Inl e
      | Inr l \<Rightarrow>
        (if node_at s l \<noteq> None then Inl FileExistsError
         else Inr (put s l (Some Dir))))"

text \<open>
  \<^verbatim>\<open>Path.mkdir(parents=True, exist_ok=True)\<close> on the path with the given initial
  slashes and parts: try to make the directory; when a component is missing make the
  parent first and try again; any other error is let through unless the directory is
  there already. The result is the exception raised, if any, and the state reached.
\<close>

definition mkdir_exist_ok :: "fsys \<Rightarrow> string \<Rightarrow> py_error option \<times> fsys" where
  "mkdir_exist_ok s p =
     (case os_mkdir s p of
        Inr s1 \<Rightarrow> (None, s1)
      | Inl e \<Rightarrow>
        (if e = FileNotFoundError then (Some e, s)
         else if isdir s p then (None, s)
         else (Some e, s)))"

function mkdir_parents :: "fsys \<Rightarrow> nat \<Rightarrow> string list \<Rightarrow> py_error option \<times> fsys" where
  "mkdir_parents s n parts =
     (case os_mkdir s (path_str n parts) of
        Inr s1 \<Rightarrow> (None, s1)
      | Inl e \<Rightarrow>
        (if e = FileNotFoundError then
           (if parts = [] then (Some e, s)
            else (case mkdir_parents s n (butlast parts) of
                    (Some e1, s1) \<Rightarrow> (Some e1, s1)
                  | (None, s1) \<Rightarrow> mkdir_exist_ok s1 (path_str n parts)))
         else if isdir s (path_str n parts) then (None, s)
         else (Some e, s)))"
  by pat_completeness auto
termination
  by (relation "measure (\<lambda>(s, n, parts). length parts)") auto

declare mkdir_parents.simps [simp del]

text \<open>\<^verbatim>\<open>Path(p).parent.mkdir(parents=True, exist_ok=True)\<close>\<close>

definition mkdir_parent_of :: "fsys \<Rightarrow> string \<Rightarrow> py_error option \<times> fsys" where
  "mkdir_parent_of s p = mkdir_parents s (initial_slashes p) (butlast (pure_parts p))"

subsection \<open>The store\<close>

definition BASE_FOLDER :: string where
  "BASE_FOLDER = ''D:/CinnaOS''"

definition RECYCLE_DIR :: string where
  "RECYCLE_DIR = path_div BASE_FOLDER ''recycle_bin''"

definition RECYCLE_INDEX :: string where
  "RECYCLE_INDEX = path_div RECYCLE_DIR ''index.json''"

definition load_recycle_index :: "fsys \<Rightarrow> json" where
  "load_recycle_index s =
     (case read_text s RECYCLE_INDEX of
        Inl e \<Rightarrow> JObj []
      | Inr c \<Rightarrow> (case json_loads c of Inl e \<Rightarrow> JObj [] | Inr v \<Rightarrow> v))"

definition save_recycle_index :: "fsys \<Rightarrow> json \<Rightarrow> fsys" where
  "save_recycle_index s idx =
     (case write_text s RECYCLE_INDEX (json_dumps idx) of
        Inl e \<Rightarrow> s
      | Inr s1 \<Rightarrow> s1)"

definition recycle_key :: "int \<Rightarrow> string \<Rightarrow> string" where
  "recycle_key timestamp path =
     (let name = (if basename path = [] then ''unknown'' else basename path)
      in str_of_int timestamp @ ''_'' @ name)"

definition entry :: "string \<Rightarrow> string \<Rightarrow> json \<Rightarrow> json" where
  "entry orig type saved = JObj [(''orig'', JStr orig), (''type'', JStr type), (''saved'', saved)]"

text \<open>
  The body of the \<^verbatim>\<open>try\<close> of \<^verbatim>\<open>move_to_recycle\<close>: the updated index, or the exception
  that sends control to the handler, with the state reached.
\<close>

definition move_try :: "fsys \<Rightarrow> json \<Rightarrow> string \<Rightarrow> string \<Rightarrow> json result" where
  "move_try s idx key path =
     (let target = path_div RECYCLE_DIR key in
      if isfile s path then
        (case copy_bytes s path target of
           Inl e \<Rightarrow> (Inl e, s)
         | Inr s1 \<Rightarrow>
           (let s2 = (case os_remove s1 path of Inl e \<Rightarrow> s1 | Inr s' \<Rightarrow> s')
            in (py_setitem idx key (entry (abspath (getcwd s2) path) ''file'' (JStr target)), s2)))
      else (py_setitem idx key (entry (abspath (getcwd s) path) ''unknown'' JNull), s))"

text \<open>\<open>timestamp\<close> is the value of \<^verbatim>\<open>int(time.time())\<close> at the call.\<close>

definition move_to_recycle :: "fsys \<Rightarrow> int \<Rightarrow> string \<Rightarrow> string result" where
  "move_to_recycle s timestamp path =
     (let idx = load_recycle_index s;
          key = recycle_key timestamp path
      in case move_try s idx key path of
           (Inr idx1, s1) \<Rightarrow> (Inr key, save_recycle_index s1 idx1)
         | (Inl e, s1) \<Rightarrow>
           (case py_setitem idx key (entry (abspath (getcwd s1) path) ''error'' JNull) of
              Inl e1 \<Rightarrow> (Inl e1, s1)
            | Inr idx1 \<Rightarrow> (Inr key, save_recycle_index s1 idx1)))"

text \<open>The message of a result: a literal, or \<^verbatim>\<open>str(e)\<close> of the exception caught.\<close>

datatype message = Msg string | StrOf py_error

text \<open>\<^verbatim>\<open>Path(entry[k])\<close>\<close>

definition entry_path :: "json \<Rightarrow> string \<Rightarrow> py_error + string" where
  "entry_path ent k = (case py_getitem ent k of Inl e \<Rightarrow> Inl e | Inr v \<Rightarrow> as_path v)"

text \<open>
  The pieces of the \<^verbatim>\<open>try\<close> of \<^verbatim>\<open>restore_from_recycle\<close>; each returns the exception
  raised, if any, and the state reached. First \<^verbatim>\<open>if entry.get("saved")\<close>: the copy.
\<close>

definition restore_copy :: "fsys \<Rightarrow> json \<Rightarrow> string option \<Rightarrow> py_error option \<times> fsys" where
  "restore_copy s ent target_path =
     (case py_get ent ''saved'' of
        Inl e \<Rightarrow> (Some e, s)
      | Inr sv \<Rightarrow>
        if \<not> truthy sv then (None, s)
        else
          (case entry_path ent ''saved'' of
             Inl e \<Rightarrow> (Some e, s)
           | Inr saved \<Rightarrow>
             (case (case target_path of
                      None \<Rightarrow> entry_path ent ''orig''
                    | Some t \<Rightarrow> if t \<noteq> [] then Inr t else entry_path ent ''orig'') of
                Inl e \<Rightarrow> (Some e, s)
              | Inr dest \<Rightarrow>
                (case mkdir_parent_of s dest of
                   (Some e, s1) \<Rightarrow> (Some e, s1)
                 | (None, s1) \<Rightarrow>
                   (case copy_bytes s1 (pure_str saved) (pure_str dest) of
                      Inl e \<Rightarrow> (Some e, s1)
                    | Inr s2 \<Rightarrow> (None, s2))))))"

text \<open>Second \<^verbatim>\<open>if entry.get("saved")\<close>: the archived copy is unlinked, errors ignored.\<close>

definition restore_unlink :: "fsys \<Rightarrow> json \<Rightarrow> py_error option \<times> fsys" where
  "restore_unlink s ent =
     (case py_get ent ''saved'' of
        Inl e \<Rightarrow> (Some e, s)
      | Inr sv \<Rightarrow>
        if \<not> truthy sv then (None, s)
        else
          (case entry_path ent ''saved'' of
             Inl e \<Rightarrow> (None, s)
           | Inr saved \<Rightarrow>
             (case os_remove s (pure_str saved) of Inl e \<Rightarrow> (None, s) | Inr s1 \<Rightarrow> (None, s1))))"

definition restore_try :: "fsys \<Rightarrow> json \<Rightarrow> string \<Rightarrow> json \<Rightarrow> string option \<Rightarrow> py_error option \<times> fsys" where
  "restore_try s idx key ent target_path =
     (case restore_copy s ent target_path of
        (Some e, s1) \<Rightarrow> (Some e, s1)
      | (None, s1) \<Rightarrow>
        (case restore_unlink s1 ent of
           (Some e, s2) \<Rightarrow> (Some e, s2)
         | (None, s2) \<Rightarrow>
           (case py_pop idx key of
              Inl e \<Rightarrow> (Some e, s2)
            | Inr idx1 \<Rightarrow> (None, save_recycle_index s2 idx1))))"

definition restore_from_recycle :: "fsys \<Rightarrow> string \<Rightarrow> string option \<Rightarrow> (bool \<times> message) result" where
  "restore_from_recycle s key target_path =
     (let idx = load_recycle_index s in
      case py_contains idx key of
        Inl e \<Rightarrow> (Inl e, s)
      | Inr present \<Rightarrow>
        if \<not> present then (Inr (False, Msg ''Not found''), s)
        else
          (case py_getitem idx key of
             Inl e \<Rightarrow> (Inl e, s)
           | Inr ent \<Rightarrow>
             (case restore_try s idx key ent target_path of
                (None, s1) \<Rightarrow> (Inr (True, Msg ''Restored''), s1)
              | (Some e, s1) \<Rightarrow> (Inr (False, StrOf e), s1))))"

text \<open>\<^verbatim>\<open>idx.items()\<close>\<close>

fun py_items :: "json \<Rightarrow> py_error + (string \<times> json) list" where
  "py_items (JObj kvs) = Inr kvs"
| "py_items _ = Inl AttributeError"

text \<open>The loop of \<^verbatim>\<open>empty_recycle\<close> over the items of the index.\<close>

fun empty_loop :: "fsys \<Rightarrow> (string \<times> json) list \<Rightarrow> py_error option \<times> fsys" where
  "empty_loop s [] = (None, s)"
| "empty_loop s ((k, v) # kvs) =
     (case py_get v ''saved'' of
        Inl e \<Rightarrow> (Some e, s)
      | Inr sv \<Rightarrow>
        if \<not> truthy sv then empty_loop s kvs
        else
          (case entry_path v ''saved'' of
             Inl e \<Rightarrow> empty_loop s kvs
           | Inr saved \<Rightarrow>
             (case os_remove s (pure_str saved) of
                Inl e \<Rightarrow> empty_loop s kvs
              | Inr s1 \<Rightarrow> empty_loop s1 kvs)))"

definition empty_recycle :: "fsys \<Rightarrow> bool result" where
  "empty_recycle s =
     (case py_items (load_recycle_index s) of
        Inl e \<Rightarrow> (Inl e, s)
      | Inr kvs \<Rightarrow>
        (case empty_loop s kvs of
           (Some e, s1) \<Rightarrow> (Inl e, s1)
         | (None, s1) \<Rightarrow> (Inr True, save_recycle_index s1 (JObj []))))"

subsection \<open>Notions used in the statements\<close>

text \<open>Where the archive directory and the index document are, when they resolve.\<close>

definition dir_loc :: "fsys \<Rightarrow> loc" where
  "dir_loc s = cwd s @ [''D:'', ''CinnaOS'', ''recycle_bin'']"

definition index_loc :: "fsys \<Rightarrow> loc" where
  "index_loc s = dir_loc s @ [''index.json'']"

text \<open>
  Sample states: the root holds the archive directory and \<^verbatim>\<open>/tmp/a.txt\<close> with content
  \<^verbatim>\<open>hi\<close>, the working directory is the root, and the index document has the given
  content. In the blocked store a directory sits where the file would be archived at
  time 5.
\<close>

definition demo_files :: "loc \<Rightarrow> node option" where
  "demo_files = [[''D:''] \<mapsto> Dir, [''D:'', ''CinnaOS''] \<mapsto> Dir,
                 [''D:'', ''CinnaOS'', ''recycle_bin''] \<mapsto> Dir,
                 [''tmp''] \<mapsto> Dir, [''tmp'', ''a.txt''] \<mapsto> File (Bytes ''hi'')]"

definition demo_store :: "content \<Rightarrow> fsys" where
  "demo_store c =
     \<lparr>files = demo_files([''D:'', ''CinnaOS'', ''recycle_bin'', ''index.json''] \<mapsto> File c),
      cwd = []\<rparr>"

definition blocked_store :: "content \<Rightarrow> fsys" where
  "blocked_store c =
     \<lparr>files = demo_files([''D:'', ''CinnaOS'', ''recycle_bin'', ''index.json''] \<mapsto> File c,
                          [''D:'', ''CinnaOS'', ''recycle_bin'', ''5_a.txt''] \<mapsto> Dir),
      cwd = []\<rparr>"

text \<open>An index with one archived file.\<close>

definition demo_index :: "(string \<times> json) list" where
  "demo_index =
     [(''5_a.txt'', entry ''/tmp/a.txt'' ''file'' (JStr ''D:/CinnaOS/recycle_bin/5_a.txt''))]"

text \<open>
  Two states with the same working directory and the same directories: every path
  resolves in the one as in the other.
\<close>

definition dirs_eq :: "fsys \<Rightarrow> fsys \<Rightarrow> bool" where
  "dirs_eq s s' \<longleftrightarrow> cwd s' = cwd s \<and> (\<forall>l. is_dir s' l = is_dir s l)"

text \<open>
  The store is in working order: the archive directory is there, and the index document
  is not itself a directory.
\<close>

definition store_ok :: "fsys \<Rightarrow> bool" where
  "store_ok s \<longleftrightarrow> isdir s RECYCLE_DIR \<and> \<not> isdir s RECYCLE_INDEX"

text \<open>The second state has every node of the first, and possibly more.\<close>

definition extends :: "fsys \<Rightarrow> fsys \<Rightarrow> bool" where
  "extends s s' \<longleftrightarrow> cwd s' = cwd s \<and> (\<forall>l n. node_at s l = Some n \<longrightarrow> node_at s' l = Some n)"

text \<open>A proper name of a directory entry: not empty, not a dot name, no separator in it.\<close>

definition clean_name :: "string \<Rightarrow> bool" where
  "clean_name c \<longleftrightarrow> c \<noteq> [] \<and> c \<noteq> ''.'' \<and> c \<noteq> ''..'' \<and> sep \<notin> set c"

text \<open>A sequence of move-ins, each with its timestamp and path, one after the other.\<close>

fun move_all :: "fsys \<Rightarrow> (int \<times> string) list \<Rightarrow> fsys" where
  "move_all s [] = s"
| "move_all s ((timestamp, path) # ms) = move_all (snd (move_to_recycle s timestamp path)) ms"

text \<open>The saved paths that an index refers to: the non-empty strings under \<^verbatim>\<open>saved\<close>.\<close>

fun saved_of :: "json \<Rightarrow> string list" where
  "saved_of (JObj kvs) =
     (case map_of kvs ''saved'' of Some (JStr p) \<Rightarrow> if p = [] then [] else [p] | _ \<Rightarrow> [])"
| "saved_of _ = []"

fun index_saved :: "json \<Rightarrow> string list" where
  "index_saved (JObj kvs) = concat (map (\<lambda>(k, v). saved_of v) kvs)"
| "index_saved _ = []"

text \<open>
  An entry as \<^verbatim>\<open>move_to_recycle\<close> writes it: nothing saved, or a file saved in the
  archive directory under the name of a key.
\<close>

definition archived_entry :: "json \<Rightarrow> bool" where
  "archived_entry v \<longleftrightarrow>
     (\<exists>orig ty. v = entry orig ty JNull)
     \<or> (\<exists>orig ty key. clean_name key \<and> key \<noteq> ''index.json''
           \<and> v = entry orig ty (JStr (path_div RECYCLE_DIR key)))"

definition archived_index :: "fsys \<Rightarrow> bool" where
  "archived_index s \<longleftrightarrow>
     (\<exists>kvs. load_recycle_index s = JObj kvs \<and> (\<forall>(k, v) \<in> set kvs. archived_entry v))"

text \<open>
  The second state has the directories of the first and no node that the first has not;
  the index document is not among the nodes gone.
\<close>

definition shrinks :: "fsys \<Rightarrow> fsys \<Rightarrow> bool" where
  "shrinks s s' \<longleftrightarrow>
     dirs_eq s s' \<and>
     (\<forall>l. node_at s' l = node_at s l \<or> (node_at s' l = None \<and> l \<noteq> index_loc s))"

text \<open>Every proper prefix of a location is a directory.\<close>

definition dirs_upto :: "fsys \<Rightarrow> loc \<Rightarrow> bool" where
  "dirs_upto s l \<longleftrightarrow> (\<forall>n < length l. is_dir s (take n l))"

text \<open>
  The working directory is a real place: its components are proper names and the
  directories above it exist.
\<close>

definition cwd_ok :: "fsys \<Rightarrow> bool" where
  "cwd_ok s \<longleftrightarrow> (\<forall>c \<in> set (cwd s). clean_name c) \<and> dirs_upto s (cwd s)"

section \<open>Properties\<close>

subsection \<open>The paths of the store\<close>

lemma RECYCLE_DIR_str: "RECYCLE_DIR = ''D:/CinnaOS/recycle_bin''"
  by code_simp

lemma RECYCLE_INDEX_str: "RECYCLE_INDEX = ''D:/CinnaOS/recycle_bin/index.json''"
  by code_simp

lemma split_RECYCLE_DIR: "split_sep RECYCLE_DIR = [''D:'', ''CinnaOS'', ''recycle_bin'']"
  by code_simp

lemma split_RECYCLE_INDEX:
  "split_sep RECYCLE_INDEX = [''D:'', ''CinnaOS'', ''recycle_bin'', ''index.json'']"
  by code_simp

lemma resolve_RECYCLE_DIR:
  "resolve s RECYCLE_DIR = walk s (cwd s) [''D:'', ''CinnaOS'', ''recycle_bin'']"
  unfolding resolve_def split_RECYCLE_DIR by (simp add: RECYCLE_DIR_str isabs_def sep_def)

lemma resolve_RECYCLE_INDEX:
  "resolve s RECYCLE_INDEX =
     walk s (cwd s) [''D:'', ''CinnaOS'', ''recycle_bin'', ''index.json'']"
  unfolding resolve_def split_RECYCLE_INDEX by (simp add: RECYCLE_INDEX_str isabs_def sep_def)

lemma demo_load: "load_recycle_index (demo_store (JsonText v)) = v"
  by (simp add: load_recycle_index_def read_text_def open_rb_def resolve_RECYCLE_INDEX
      demo_store_def demo_files_def node_at_def read_handle_def)

subsection \<open>Loading the index\<close>

text \<open>
  C2, as the code has it. Content that cannot be read, or that \<^verbatim>\<open>json.loads\<close> rejects,
  loads as the empty mapping. Content that is the JSON text of a value loads as that
  value, whatever its shape: nothing checks that it is a mapping.
\<close>

theorem load_parsed_or_empty:
  "load_recycle_index s =
     (case read_text s RECYCLE_INDEX of
        Inl e \<Rightarrow> JObj []
      | Inr (Bytes b) \<Rightarrow> JObj []
      | Inr (JsonText v) \<Rightarrow> v)"
  by (simp add: load_recycle_index_def split: sum.splits content.splits)

text \<open>
  C2 as stated fails: an index document holding the JSON text \<^verbatim>\<open>[]\<close> is not the
  serialization of a mapping, and loading it returns the empty list, not the empty
  mapping.
\<close>

theorem load_non_mapping_counterexample:
  "load_recycle_index (demo_store (JsonText (JArr []))) = JArr []
   \<and> load_recycle_index (demo_store (JsonText (JArr []))) \<noteq> JObj []"
  by (simp add: load_recycle_index_def read_text_def open_rb_def resolve_RECYCLE_INDEX
      demo_store_def demo_files_def node_at_def read_handle_def)

subsection \<open>Restoring an unknown key\<close>

text \<open>
  C4. When the key is not in the index, \<^verbatim>\<open>restore_from_recycle\<close> returns
  \<^verbatim>\<open>(False, "Not found")\<close> whatever the target path, and the state it leaves is the state
  it found: nothing on disk has changed, the index document included.
\<close>

theorem restore_not_found:
  assumes "load_recycle_index s = JObj kvs" and "key \<notin> fst ` set kvs"
  shows "restore_from_recycle s key target_path = (Inr (False, Msg ''Not found''), s)"
proof -
  from assms(2) have "map_of kvs key = None"
    by (simp add: map_of_eq_None_iff)
  with assms(1) show ?thesis
    by (simp add: restore_from_recycle_def)
qed

theorem restore_not_found_witness:
  "load_recycle_index (demo_store (JsonText (JObj demo_index))) = JObj demo_index
   \<and> ''6_b.txt'' \<notin> fst ` set demo_index
   \<and> restore_from_recycle (demo_store (JsonText (JObj demo_index))) ''6_b.txt'' (Some ''/tmp/b.txt'')
       = (Inr (False, Msg ''Not found''), demo_store (JsonText (JObj demo_index)))"
proof -
  have h: "load_recycle_index (demo_store (JsonText (JObj demo_index))) = JObj demo_index"
    by (rule demo_load)
  have k: "''6_b.txt'' \<notin> fst ` set demo_index"
    by (simp add: demo_index_def)
  show ?thesis
    using h k restore_not_found [OF h k, of "Some ''/tmp/b.txt''"] by simp
qed

subsection \<open>Evaluation on the sample states\<close>

lemmas fs_defs = resolve_def isabs_def sep_def node_at_def put_def is_file_def is_dir_def isfile_def
  isdir_def open_rb_def open_wb_def read_handle_def write_handle_def copy_bytes_def
  read_text_def write_text_def os_remove_def os_mkdir_def

lemma str_of_int_5: "str_of_int 5 = ''5''"
  by code_simp

lemma key_5_a: "recycle_key 5 ''/tmp/a.txt'' = ''5_a.txt''"
  by code_simp

lemma target_5_a: "path_div RECYCLE_DIR ''5_a.txt'' = ''D:/CinnaOS/recycle_bin/5_a.txt''"
  by code_simp

lemma abspath_tmp_a: "abspath wd ''/tmp/a.txt'' = ''/tmp/a.txt''"
  by code_simp

lemma blocked_load: "load_recycle_index (blocked_store (JsonText v)) = v"
  by (simp add: load_recycle_index_def read_text_def open_rb_def resolve_RECYCLE_INDEX
      blocked_store_def demo_files_def node_at_def read_handle_def)

lemma blocked_isfile: "isfile (blocked_store c) ''/tmp/a.txt''"
  by (simp add: fs_defs blocked_store_def demo_files_def)

lemma blocked_copy:
  "copy_bytes (blocked_store c) ''/tmp/a.txt'' ''D:/CinnaOS/recycle_bin/5_a.txt''
     = Inl IsADirectoryError"
  by (simp add: fs_defs blocked_store_def demo_files_def)

subsection \<open>The key that a move-in returns\<close>

lemma move_returns_key:
  assumes "load_recycle_index s = JObj kvs"
  shows "fst (move_to_recycle s timestamp path) = Inr (recycle_key timestamp path)"
  using assms
  by (simp add: move_to_recycle_def move_try_def Let_def split: sum.splits prod.splits)

text \<open>
  C10. A path with an empty base name, such as one that ends in the separator, is
  archived under the name \<^verbatim>\<open>unknown\<close>: the key returned is \<^verbatim>\<open><timestamp>_unknown\<close>.
\<close>

theorem move_key_unknown:
  assumes "load_recycle_index s = JObj kvs" and "basename path = []"
  shows "fst (move_to_recycle s timestamp path) = Inr (str_of_int timestamp @ ''_unknown'')"
  using move_returns_key [OF assms(1), of timestamp path] assms(2)
  by (simp add: recycle_key_def)

theorem move_key_unknown_witness:
  "load_recycle_index (demo_store (JsonText (JObj demo_index))) = JObj demo_index
   \<and> basename ''/tmp/'' = []
   \<and> fst (move_to_recycle (demo_store (JsonText (JObj demo_index))) 5 ''/tmp/'')
       = Inr ''5_unknown''"
proof -
  have h: "load_recycle_index (demo_store (JsonText (JObj demo_index))) = JObj demo_index"
    by (rule demo_load)
  have b: "basename ''/tmp/'' = []"
    by (simp add: basename_def sep_def)
  show ?thesis
    using h b move_key_unknown [OF h b, of 5] by (simp add: str_of_int_5)
qed

subsection \<open>States and the index document\<close>

lemma cwd_put [simp]: "cwd (put s l n) = cwd s"
  by (simp add: put_def)

lemma getcwd_put [simp]: "getcwd (put s l n) = getcwd s"
  by (simp add: getcwd_def)

lemma node_at_put:
  "node_at (put s l n) l' = (if l' = [] then Some Dir else if l' = l then n else node_at s l')"
  by (simp add: node_at_def put_def)

lemma read_text_Inr:
  "read_text s p = Inr c \<longleftrightarrow> (\<exists>l. resolve s p = Inr l \<and> node_at s l = Some (File c))"
  by (auto simp: read_text_def open_rb_def read_handle_def
      split: sum.splits option.splits node.splits)

lemma put_same: "l \<noteq> [] \<Longrightarrow> node_at s l = n \<Longrightarrow> put s l n = s"
  by (auto simp: put_def node_at_def)

lemma put_put [simp]: "put (put s l n) l m = put s l m"
  by (simp add: put_def)

lemma dirs_eq_refl [simp]: "dirs_eq s s"
  by (simp add: dirs_eq_def)

lemma dirs_eq_trans: "dirs_eq s s1 \<Longrightarrow> dirs_eq s1 s2 \<Longrightarrow> dirs_eq s s2"
  by (simp add: dirs_eq_def)

lemma dirs_eq_sym: "dirs_eq s s1 \<Longrightarrow> dirs_eq s1 s"
  by (simp add: dirs_eq_def)

lemma dirs_eq_put: "\<not> is_dir s l \<Longrightarrow> n \<noteq> Some Dir \<Longrightarrow> dirs_eq s (put s l n)"
  by (auto simp: dirs_eq_def is_dir_def node_at_def put_def split: if_splits)

lemma walk_dirs_eq:
  "dirs_eq s s' \<Longrightarrow> (walk s' cur cs = Inr l) = (walk s cur cs = Inr l)"
proof (induction cs arbitrary: cur)
  case Nil
  then show ?case by simp
next
  case (Cons c cs)
  from Cons.prems have d: "is_dir s' cur = is_dir s cur"
    by (simp add: dirs_eq_def)
  show ?case
  proof (cases "is_dir s cur")
    case True
    with d have "node_at s cur = Some Dir" "node_at s' cur = Some Dir"
      by (simp_all add: is_dir_def)
    then show ?thesis using Cons.IH [OF Cons.prems] by simp
  next
    case False
    with d have "node_at s cur \<noteq> Some Dir" "node_at s' cur \<noteq> Some Dir"
      by (simp_all add: is_dir_def)
    then show ?thesis by (auto split: option.splits node.splits)
  qed
qed

lemma resolve_dirs_eq:
  "dirs_eq s s' \<Longrightarrow> (resolve s' p = Inr l) = (resolve s p = Inr l)"
  using walk_dirs_eq [of s s'] by (simp add: resolve_def dirs_eq_def)

lemma isdir_dirs_eq: "dirs_eq s s' \<Longrightarrow> isdir s' p = isdir s p"
proof -
  assume d: "dirs_eq s s'"
  show ?thesis
  proof (cases "resolve s p")
    case (Inl e)
    then have "\<And>l. resolve s' p \<noteq> Inr l" using resolve_dirs_eq [OF d, of p] by simp
    with Inl show ?thesis by (cases "resolve s' p") (auto simp: isdir_def)
  next
    case (Inr l)
    then have "resolve s' p = Inr l" using resolve_dirs_eq [OF d, of p l] by simp
    with Inr d show ?thesis by (simp add: isdir_def dirs_eq_def)
  qed
qed


lemma dir_loc_dirs_eq: "dirs_eq s s' \<Longrightarrow> dir_loc s' = dir_loc s"
  by (simp add: dirs_eq_def dir_loc_def)

lemma index_loc_dirs_eq: "dirs_eq s s' \<Longrightarrow> index_loc s' = index_loc s"
  by (simp add: index_loc_def dir_loc_dirs_eq)

lemma index_loc_nonempty [simp]: "index_loc s \<noteq> []"
  by (simp add: index_loc_def)

lemma isdir_RECYCLE_DIR:
  "isdir s RECYCLE_DIR \<longleftrightarrow>
     is_dir s (cwd s) \<and> is_dir s (cwd s @ [''D:'']) \<and> is_dir s (cwd s @ [''D:'', ''CinnaOS''])
     \<and> is_dir s (dir_loc s)"
  by (auto simp: isdir_def resolve_RECYCLE_DIR is_dir_def dir_loc_def
      split: option.splits node.splits sum.splits)

lemma resolve_index:
  "isdir s RECYCLE_DIR \<Longrightarrow> resolve s RECYCLE_INDEX = Inr (index_loc s)"
  by (simp add: isdir_RECYCLE_DIR resolve_RECYCLE_INDEX is_dir_def index_loc_def dir_loc_def)

lemma resolve_index_fail:
  "\<not> isdir s RECYCLE_DIR \<Longrightarrow> \<exists>e. resolve s RECYCLE_INDEX = Inl e"
  by (auto simp add: isdir_RECYCLE_DIR resolve_RECYCLE_INDEX is_dir_def index_loc_def dir_loc_def
      split: option.splits node.splits)

lemma isdir_index:
  "isdir s RECYCLE_INDEX \<longleftrightarrow> isdir s RECYCLE_DIR \<and> is_dir s (index_loc s)"
proof (cases "isdir s RECYCLE_DIR")
  case True
  then show ?thesis by (simp add: isdir_def [of s RECYCLE_INDEX] resolve_index)
next
  case False
  then show ?thesis using resolve_index_fail [OF False] by (auto simp: isdir_def [of s RECYCLE_INDEX])
qed

lemma store_ok_iff: "store_ok s \<longleftrightarrow> isdir s RECYCLE_DIR \<and> \<not> is_dir s (index_loc s)"
  by (auto simp: store_ok_def isdir_index)

lemma store_ok_dirs_eq: "dirs_eq s s' \<Longrightarrow> store_ok s' = store_ok s"
  by (simp add: store_ok_def isdir_dirs_eq)

lemma load_eq:
  "load_recycle_index s =
     (if isdir s RECYCLE_DIR
      then (case node_at s (index_loc s) of Some (File (JsonText v)) \<Rightarrow> v | _ \<Rightarrow> JObj [])
      else JObj [])"
proof (cases "isdir s RECYCLE_DIR")
  case True
  then show ?thesis
    by (simp add: load_recycle_index_def read_text_def open_rb_def resolve_index read_handle_def
        split: option.splits node.splits content.splits)
next
  case False
  then show ?thesis using resolve_index_fail [OF False]
    by (auto simp: load_recycle_index_def read_text_def open_rb_def)
qed

lemma save_ok:
  "store_ok s \<Longrightarrow> save_recycle_index s idx = put s (index_loc s) (Some (File (JsonText idx)))"
  by (auto simp: store_ok_iff save_recycle_index_def write_text_def open_wb_def resolve_index
      write_handle_def json_dumps_def is_dir_def split: option.splits node.splits)

lemma save_fail: "\<not> store_ok s \<Longrightarrow> save_recycle_index s idx = s"
proof (cases "isdir s RECYCLE_DIR")
  case True
  assume "\<not> store_ok s"
  with True have "node_at s (index_loc s) = Some Dir" by (simp add: store_ok_iff is_dir_def)
  with True show ?thesis
    by (simp add: save_recycle_index_def write_text_def open_wb_def resolve_index)
next
  case False
  then show ?thesis using resolve_index_fail [OF False]
    by (auto simp: save_recycle_index_def write_text_def open_wb_def)
qed

lemma load_unwritable: "\<not> store_ok s \<Longrightarrow> load_recycle_index s = JObj []"
  by (auto simp: load_eq store_ok_iff is_dir_def)

lemma dirs_eq_save: "dirs_eq s (save_recycle_index s idx)"
proof (cases "store_ok s")
  case True
  then show ?thesis by (simp add: save_ok store_ok_iff dirs_eq_put)
next
  case False
  then show ?thesis by (simp add: save_fail)
qed

lemma load_save: "store_ok s \<Longrightarrow> load_recycle_index (save_recycle_index s idx) = idx"
proof -
  assume ok: "store_ok s"
  have d: "dirs_eq s (save_recycle_index s idx)" by (rule dirs_eq_save)
  from ok have "isdir (save_recycle_index s idx) RECYCLE_DIR"
    using isdir_dirs_eq [OF d] by (simp add: store_ok_iff)
  then show ?thesis
    using index_loc_dirs_eq [OF d] by (simp add: load_eq save_ok [OF ok] node_at_put)
qed

lemma store_ok_save: "store_ok (save_recycle_index s idx) = store_ok s"
  by (rule store_ok_dirs_eq [OF dirs_eq_save])

subsection \<open>A copy that fails\<close>

lemma blocked_store_ok: "store_ok (blocked_store c)"
  by (simp add: store_ok_iff isdir_RECYCLE_DIR)
     (simp add: index_loc_def dir_loc_def is_dir_def node_at_def blocked_store_def demo_files_def)

lemma blocked_index_loc:
  "index_loc (blocked_store c) = [''D:'', ''CinnaOS'', ''recycle_bin'', ''index.json'']"
  by (simp add: index_loc_def dir_loc_def blocked_store_def)

text \<open>
  C7. With an index that loads as a mapping, \<^verbatim>\<open>move_to_recycle\<close> returns the key
  \<^verbatim>\<open><timestamp>_<basename>\<close> for every path and in every state, so the value returned
  is the same whether the file was archived or not. When the path is a regular file
  and the copy raises, the index is saved with the entry of type \<^verbatim>\<open>error\<close> and no saved
  path under that key, and nothing else is written. With the store in working order the
  index document then holds exactly that index, every other location is as it was, and
  reading the index back gives the entry under the key.
\<close>

theorem move_returns_key_always:
  assumes "load_recycle_index s = JObj kvs"
  shows "fst (move_to_recycle s timestamp path) =
           Inr (str_of_int timestamp @ ''_'' @
                (if basename path = [] then ''unknown'' else basename path))
         \<and> (isfile s path
              \<and> copy_bytes s path (path_div RECYCLE_DIR (recycle_key timestamp path)) = Inl e
             \<longrightarrow> snd (move_to_recycle s timestamp path) =
                   save_recycle_index s
                     (JObj (AList.update (recycle_key timestamp path)
                              (entry (abspath (getcwd s) path) ''error'' JNull) kvs))
                 \<and> (store_ok s \<longrightarrow>
                       snd (move_to_recycle s timestamp path) =
                         put s (index_loc s)
                           (Some (File (JsonText
                              (JObj (AList.update (recycle_key timestamp path)
                                       (entry (abspath (getcwd s) path) ''error'' JNull) kvs)))))
                     \<and> load_recycle_index (snd (move_to_recycle s timestamp path)) =
                         JObj (AList.update (recycle_key timestamp path)
                                 (entry (abspath (getcwd s) path) ''error'' JNull) kvs)
                     \<and> py_getitem (load_recycle_index (snd (move_to_recycle s timestamp path)))
                         (recycle_key timestamp path) =
                         Inr (JObj [(''orig'', JStr (abspath (getcwd s) path)),
                                    (''type'', JStr ''error''), (''saved'', JNull)])))"
proof -
  let ?key = "recycle_key timestamp path"
  let ?idx = "JObj (AList.update ?key (entry (abspath (getcwd s) path) ''error'' JNull) kvs)"
  have k: "fst (move_to_recycle s timestamp path) =
           Inr (str_of_int timestamp @ ''_'' @
                (if basename path = [] then ''unknown'' else basename path))"
    using assms
    by (simp add: move_to_recycle_def move_try_def Let_def recycle_key_def
        split: sum.splits prod.splits)
  have m: "snd (move_to_recycle s timestamp path) = save_recycle_index s ?idx"
    if "isfile s path" and "copy_bytes s path (path_div RECYCLE_DIR ?key) = Inl e"
    using assms that by (simp add: move_to_recycle_def move_try_def Let_def)
  have p: "save_recycle_index s ?idx = put s (index_loc s) (Some (File (JsonText ?idx)))"
    if "store_ok s"
    using that by (rule save_ok)
  have l: "load_recycle_index (save_recycle_index s ?idx) = ?idx" if "store_ok s"
    using that by (rule load_save)
  have g: "py_getitem ?idx ?key =
             Inr (JObj [(''orig'', JStr (abspath (getcwd s) path)),
                        (''type'', JStr ''error''), (''saved'', JNull)])"
    by (simp add: update_conv' entry_def)
  from k m p l g show ?thesis by simp
qed

theorem move_returns_key_always_witness:
  "load_recycle_index (blocked_store (JsonText (JObj []))) = JObj []
   \<and> isfile (blocked_store (JsonText (JObj []))) ''/tmp/a.txt''
   \<and> copy_bytes (blocked_store (JsonText (JObj []))) ''/tmp/a.txt''
        (path_div RECYCLE_DIR (recycle_key 5 ''/tmp/a.txt'')) = Inl IsADirectoryError
   \<and> store_ok (blocked_store (JsonText (JObj [])))
   \<and> fst (move_to_recycle (blocked_store (JsonText (JObj []))) 5 ''/tmp/a.txt'') = Inr ''5_a.txt''
   \<and> snd (move_to_recycle (blocked_store (JsonText (JObj []))) 5 ''/tmp/a.txt'') =
       put (blocked_store (JsonText (JObj [])))
         [''D:'', ''CinnaOS'', ''recycle_bin'', ''index.json'']
         (Some (File (JsonText (JObj [(''5_a.txt'', entry ''/tmp/a.txt'' ''error'' JNull)]))))
   \<and> load_recycle_index
        (snd (move_to_recycle (blocked_store (JsonText (JObj []))) 5 ''/tmp/a.txt'')) =
       JObj [(''5_a.txt'', entry ''/tmp/a.txt'' ''error'' JNull)]"
proof -
  have h: "load_recycle_index (blocked_store (JsonText (JObj []))) = JObj []"
    by (rule blocked_load)
  have c: "copy_bytes (blocked_store (JsonText (JObj []))) ''/tmp/a.txt''
        (path_div RECYCLE_DIR (recycle_key 5 ''/tmp/a.txt'')) = Inl IsADirectoryError"
    by (simp add: key_5_a target_5_a blocked_copy)
  show ?thesis
    using h c blocked_isfile blocked_store_ok [of "JsonText (JObj [])"]
      move_returns_key_always [OF h, of 5 "''/tmp/a.txt''" IsADirectoryError]
    by (auto simp: key_5_a abspath_tmp_a basename_def sep_def str_of_int_5 blocked_index_loc)
qed

subsection \<open>Emptying twice\<close>

lemma empty_recycle_returns:
  assumes "fst (empty_recycle s) = Inr True"
  obtains kvs s1 where "load_recycle_index s = JObj kvs" and "empty_loop s kvs = (None, s1)"
    and "snd (empty_recycle s) = save_recycle_index s1 (JObj [])"
proof (cases "load_recycle_index s")
  case (JObj kvs)
  obtain r s1 where l: "empty_loop s kvs = (r, s1)" by (cases "empty_loop s kvs")
  with assms JObj have "r = None"
    by (cases r) (simp_all add: empty_recycle_def)
  with l JObj that [of kvs s1] show ?thesis
    by (simp add: empty_recycle_def)
qed (use assms in \<open>simp_all add: empty_recycle_def\<close>)

lemma load_after_save_empty: "load_recycle_index (save_recycle_index s (JObj [])) = JObj []"
proof (cases "store_ok s")
  case True
  then show ?thesis by (simp add: load_save)
next
  case False
  then show ?thesis by (simp add: save_fail load_unwritable)
qed

lemma save_empty_twice:
  "save_recycle_index (save_recycle_index s (JObj [])) (JObj []) = save_recycle_index s (JObj [])"
proof (cases "store_ok s")
  case True
  let ?s1 = "save_recycle_index s (JObj [])"
  have d: "dirs_eq s ?s1" by (rule dirs_eq_save)
  from True have ok: "store_ok ?s1" by (simp add: store_ok_save)
  have "save_recycle_index ?s1 (JObj []) = put ?s1 (index_loc s) (Some (File (JsonText (JObj []))))"
    using save_ok [OF ok] index_loc_dirs_eq [OF d] by simp
  also have "\<dots> = ?s1"
    by (simp add: save_ok [OF True])
  finally show ?thesis .
next
  case False
  then show ?thesis by (simp add: save_fail)
qed

text \<open>
  C6. When a call of \<^verbatim>\<open>empty_recycle\<close> has returned, a second call right after it
  returns \<^verbatim>\<open>True\<close> as well, raises nothing, and leaves the state exactly as the first
  call left it; the index loads as the empty mapping.
\<close>

theorem empty_twice:
  assumes "fst (empty_recycle s) = Inr True"
  shows "empty_recycle (snd (empty_recycle s)) = (Inr True, snd (empty_recycle s))
         \<and> load_recycle_index (snd (empty_recycle s)) = JObj []"
proof -
  from assms obtain kvs s1 where
    s': "snd (empty_recycle s) = save_recycle_index s1 (JObj [])"
    by (rule empty_recycle_returns)
  have "load_recycle_index (snd (empty_recycle s)) = JObj []"
    unfolding s' by (rule load_after_save_empty)
  moreover from this have "empty_recycle (snd (empty_recycle s)) = (Inr True, snd (empty_recycle s))"
    by (simp add: empty_recycle_def [of "snd (empty_recycle s)"]) (simp add: s' save_empty_twice)
  ultimately show ?thesis by simp
qed

lemma pure_str_5_a:
  "pure_str ''D:/CinnaOS/recycle_bin/5_a.txt'' = ''D:/CinnaOS/recycle_bin/5_a.txt''"
  by code_simp

lemma demo_empty:
  "fst (empty_recycle (demo_store (JsonText (JObj demo_index)))) = Inr True"
  by (simp add: empty_recycle_def demo_load demo_index_def entry_def entry_path_def pure_str_5_a)
     (simp add: fs_defs demo_store_def demo_files_def)

theorem empty_twice_witness:
  "fst (empty_recycle (demo_store (JsonText (JObj demo_index)))) = Inr True
   \<and> empty_recycle (snd (empty_recycle (demo_store (JsonText (JObj demo_index)))))
       = (Inr True, snd (empty_recycle (demo_store (JsonText (JObj demo_index)))))
   \<and> load_recycle_index (snd (empty_recycle (demo_store (JsonText (JObj demo_index))))) = JObj []"
  using demo_empty empty_twice [OF demo_empty] by simp

subsection \<open>What a move-in does to the state\<close>

lemma getcwd_dirs_eq: "dirs_eq s s' \<Longrightarrow> getcwd s' = getcwd s"
  by (simp add: dirs_eq_def getcwd_def)

lemma copy_bytes_Inr:
  assumes "copy_bytes s src dst = Inr s1"
  obtains a b c where "resolve s src = Inr a" and "node_at s a = Some (File c)"
    and "resolve s dst = Inr b" and "\<not> is_dir s b"
    and "s1 = put s b (Some (File (if a = b then Bytes [] else c)))"
proof -
  from assms obtain a where a: "open_rb s src = Inr a"
    by (auto simp: copy_bytes_def split: sum.splits)
  then obtain c where ra: "resolve s src = Inr a" and na: "node_at s a = Some (File c)"
    by (auto simp: open_rb_def split: sum.splits option.splits node.splits)
  from assms a obtain b s0 where b: "open_wb s dst = Inr (b, s0)"
    by (auto simp: copy_bytes_def split: sum.splits)
  then have rb: "resolve s dst = Inr b" and nb: "\<not> is_dir s b"
    and s0: "s0 = put s b (Some (File (Bytes [])))"
    by (auto simp: open_wb_def is_dir_def split: sum.splits option.splits node.splits)
  from na have "a \<noteq> []" by (auto simp: node_at_def split: if_splits)
  with assms a b s0 na have "s1 = put s b (Some (File (if a = b then Bytes [] else c)))"
    by (auto simp: copy_bytes_def write_handle_def read_handle_def node_at_put)
  with ra na rb nb that show ?thesis by blast
qed

lemma dirs_eq_copy: "copy_bytes s src dst = Inr s1 \<Longrightarrow> dirs_eq s s1"
  by (erule copy_bytes_Inr) (simp add: dirs_eq_put)

lemma os_remove_Inr:
  assumes "os_remove s p = Inr s1"
  obtains l c where "resolve s p = Inr l" and "node_at s l = Some (File c)" and "s1 = put s l None"
  using assms by (auto simp: os_remove_def split: sum.splits option.splits node.splits)

lemma dirs_eq_remove: "os_remove s p = Inr s1 \<Longrightarrow> dirs_eq s s1"
  by (erule os_remove_Inr) (simp add: dirs_eq_put is_dir_def)

lemma move_shape:
  assumes "load_recycle_index s = JObj kvs"
  shows "\<exists>ty sv s1. dirs_eq s s1 \<and>
           (sv = JNull \<or> sv = JStr (path_div RECYCLE_DIR (recycle_key timestamp path))) \<and>
           move_to_recycle s timestamp path =
             (Inr (recycle_key timestamp path),
              save_recycle_index s1
                (JObj (AList.update (recycle_key timestamp path)
                         (entry (abspath (getcwd s) path) ty sv) kvs)))"
proof (cases "isfile s path")
  case False
  with assms have "move_to_recycle s timestamp path =
      (Inr (recycle_key timestamp path),
       save_recycle_index s (JObj (AList.update (recycle_key timestamp path)
          (entry (abspath (getcwd s) path) ''unknown'' JNull) kvs)))"
    by (simp add: move_to_recycle_def move_try_def Let_def)
  then show ?thesis using dirs_eq_refl by blast
next
  case True
  show ?thesis
  proof (cases "copy_bytes s path (path_div RECYCLE_DIR (recycle_key timestamp path))")
    case (Inl e)
    with True assms have "move_to_recycle s timestamp path =
      (Inr (recycle_key timestamp path),
       save_recycle_index s (JObj (AList.update (recycle_key timestamp path)
          (entry (abspath (getcwd s) path) ''error'' JNull) kvs)))"
      by (simp add: move_to_recycle_def move_try_def Let_def)
    then show ?thesis using dirs_eq_refl by blast
  next
    case (Inr s1)
    define s2 where "s2 = (case os_remove s1 path of Inl e \<Rightarrow> s1 | Inr s' \<Rightarrow> s')"
    have d1: "dirs_eq s s1" using Inr by (rule dirs_eq_copy)
    have "dirs_eq s1 s2"
      unfolding s2_def using dirs_eq_remove [of s1 path] by (cases "os_remove s1 path") simp_all
    with d1 have d2: "dirs_eq s s2" by (rule dirs_eq_trans)
    from True Inr assms have "move_to_recycle s timestamp path =
      (Inr (recycle_key timestamp path),
       save_recycle_index s2 (JObj (AList.update (recycle_key timestamp path)
          (entry (abspath (getcwd s2) path) ''file''
             (JStr (path_div RECYCLE_DIR (recycle_key timestamp path)))) kvs)))"
      by (simp add: move_to_recycle_def move_try_def s2_def Let_def)
    with d2 show ?thesis using getcwd_dirs_eq [OF d2] by auto
  qed
qed

lemma move_frame:
  assumes "store_ok s" and "load_recycle_index s = JObj kvs"
  shows "\<exists>typ sv.
           load_recycle_index (snd (move_to_recycle s timestamp path)) =
             JObj (AList.update (recycle_key timestamp path)
                     (entry (abspath (getcwd s) path) typ sv) kvs)"
    and "store_ok (snd (move_to_recycle s timestamp path))"
    and "dirs_eq s (snd (move_to_recycle s timestamp path))"
proof -
  from move_shape [OF assms(2), of timestamp path] obtain ty sv s1 where
    d: "dirs_eq s s1" and
    m: "move_to_recycle s timestamp path =
          (Inr (recycle_key timestamp path),
           save_recycle_index s1
             (JObj (AList.update (recycle_key timestamp path)
                      (entry (abspath (getcwd s) path) ty sv) kvs)))"
    by blast
  from assms(1) d have ok: "store_ok s1" by (simp add: store_ok_dirs_eq)
  from m ok show "\<exists>typ sv.
           load_recycle_index (snd (move_to_recycle s timestamp path)) =
             JObj (AList.update (recycle_key timestamp path)
                     (entry (abspath (getcwd s) path) typ sv) kvs)"
    by (auto simp: load_save)
  from m ok show "store_ok (snd (move_to_recycle s timestamp path))"
    by (simp add: store_ok_save)
  from m d show "dirs_eq s (snd (move_to_recycle s timestamp path))"
    using dirs_eq_trans [OF d dirs_eq_save] by simp
qed

subsection \<open>Items that are not regular files\<close>

lemma node_at_root [simp]: "node_at s [] = Some Dir"
  by (simp add: node_at_def)

lemma node_at_save_other:
  "l \<noteq> index_loc s \<Longrightarrow> node_at (save_recycle_index s idx) l = node_at s l"
proof (cases "store_ok s")
  case True
  assume "l \<noteq> index_loc s"
  with True show ?thesis by (simp add: save_ok node_at_put)
next
  case False
  then show ?thesis by (simp add: save_fail)
qed

lemma restore_plain_entry:
  assumes ok: "store_ok s" and idx: "load_recycle_index s = JObj kvs"
    and ent: "map_of kvs key = Some (entry orig ty JNull)"
  shows "restore_from_recycle s key target_path =
           (Inr (True, Msg ''Restored''), save_recycle_index s (JObj (AList.delete key kvs)))"
proof -
  have c: "restore_copy s (entry orig ty JNull) target_path = (None, s)"
    by (simp add: restore_copy_def entry_def)
  have u: "restore_unlink s (entry orig ty JNull) = (None, s)"
    by (simp add: restore_unlink_def entry_def)
  from idx ent c u show ?thesis
    by (simp add: restore_from_recycle_def restore_try_def)
qed

text \<open>
  C8. When the path is not a regular file (a directory, say), \<^verbatim>\<open>move_to_recycle\<close>
  writes nothing but the index, which gains the entry of type \<^verbatim>\<open>unknown\<close> with no
  saved path: nothing is copied and nothing deleted. Restoring that key then returns
  \<^verbatim>\<open>(True, "Restored")\<close> and again writes nothing but the index, which loses the
  entry.
\<close>

theorem move_restore_non_file:
  assumes ok: "store_ok s" and idx: "load_recycle_index s = JObj kvs"
    and nf: "\<not> isfile s path"
  shows "let key = recycle_key timestamp path;
             e = entry (abspath (getcwd s) path) ''unknown'' JNull;
             s1 = snd (move_to_recycle s timestamp path);
             s2 = snd (restore_from_recycle s1 key None)
         in move_to_recycle s timestamp path =
              (Inr key, save_recycle_index s (JObj (AList.update key e kvs)))
          \<and> load_recycle_index s1 = JObj (AList.update key e kvs)
          \<and> (\<forall>l. l \<noteq> index_loc s \<longrightarrow> node_at s1 l = node_at s l)
          \<and> restore_from_recycle s1 key None =
              (Inr (True, Msg ''Restored''), save_recycle_index s1 (JObj (AList.delete key kvs)))
          \<and> load_recycle_index s2 = JObj (AList.delete key kvs)
          \<and> (\<forall>l. l \<noteq> index_loc s \<longrightarrow> node_at s2 l = node_at s l)"
proof -
  define key where "key = recycle_key timestamp path"
  define e where "e = entry (abspath (getcwd s) path) ''unknown'' JNull"
  define s1 where "s1 = save_recycle_index s (JObj (AList.update key e kvs))"
  define s2 where "s2 = save_recycle_index s1 (JObj (AList.delete key kvs))"
  from idx nf have m: "move_to_recycle s timestamp path = (Inr key, s1)"
    by (simp add: move_to_recycle_def move_try_def Let_def key_def e_def s1_def)
  have d1: "dirs_eq s s1" unfolding s1_def by (rule dirs_eq_save)
  from ok have ok1: "store_ok s1" by (simp add: s1_def store_ok_save)
  from ok have l1: "load_recycle_index s1 = JObj (AList.update key e kvs)"
    by (simp add: s1_def load_save)
  have i1: "index_loc s1 = index_loc s" using d1 by (rule index_loc_dirs_eq)
  have f1: "\<forall>l. l \<noteq> index_loc s \<longrightarrow> node_at s1 l = node_at s l"
    by (simp add: s1_def node_at_save_other)
  have "map_of (AList.update key e kvs) key = Some (entry (abspath (getcwd s) path) ''unknown'' JNull)"
    by (simp add: update_conv' e_def)
  from restore_plain_entry [OF ok1 l1 this, of None]
  have r: "restore_from_recycle s1 key None = (Inr (True, Msg ''Restored''), s2)"
    by (simp add: s2_def delete_update_same)
  from ok1 have l2: "load_recycle_index s2 = JObj (AList.delete key kvs)"
    by (simp add: s2_def load_save)
  have f2: "\<forall>l. l \<noteq> index_loc s \<longrightarrow> node_at s2 l = node_at s l"
    using f1 i1 by (simp add: s2_def node_at_save_other)
  from m l1 f1 r l2 f2 show ?thesis
    by (simp add: Let_def key_def [symmetric] e_def [symmetric] s1_def [symmetric] s2_def [symmetric])
qed

lemma demo_isdir: "isdir (demo_store c) RECYCLE_DIR"
  by (simp add: isdir_RECYCLE_DIR dir_loc_def is_dir_def node_at_def demo_store_def demo_files_def)

lemma demo_store_ok: "store_ok (demo_store c)"
  by (simp add: store_ok_iff demo_isdir)
     (simp add: index_loc_def dir_loc_def is_dir_def node_at_def demo_store_def demo_files_def)

lemma key_5_tmp: "recycle_key 5 ''/tmp'' = ''5_tmp''"
  by code_simp

lemma abspath_tmp: "abspath wd ''/tmp'' = ''/tmp''"
  by code_simp

lemma demo_tmp_not_file: "\<not> isfile (demo_store c) ''/tmp''"
  by (simp add: fs_defs demo_store_def demo_files_def)

theorem move_restore_non_file_witness:
  "store_ok (demo_store (JsonText (JObj [])))
   \<and> load_recycle_index (demo_store (JsonText (JObj []))) = JObj []
   \<and> \<not> isfile (demo_store (JsonText (JObj []))) ''/tmp''
   \<and> fst (move_to_recycle (demo_store (JsonText (JObj []))) 5 ''/tmp'') = Inr ''5_tmp''
   \<and> load_recycle_index (snd (move_to_recycle (demo_store (JsonText (JObj []))) 5 ''/tmp''))
       = JObj [(''5_tmp'', entry ''/tmp'' ''unknown'' JNull)]
   \<and> fst (restore_from_recycle
             (snd (move_to_recycle (demo_store (JsonText (JObj []))) 5 ''/tmp'')) ''5_tmp'' None)
       = Inr (True, Msg ''Restored'')
   \<and> load_recycle_index (snd (restore_from_recycle
             (snd (move_to_recycle (demo_store (JsonText (JObj []))) 5 ''/tmp'')) ''5_tmp'' None))
       = JObj []"
proof -
  have h: "load_recycle_index (demo_store (JsonText (JObj []))) = JObj []"
    by (rule demo_load)
  show ?thesis
    using h demo_store_ok demo_tmp_not_file
      move_restore_non_file [OF demo_store_ok h demo_tmp_not_file, of 5]
    by (auto simp: Let_def key_5_tmp abspath_tmp)
qed

subsection \<open>Two move-ins under one key\<close>

lemma recycle_key_basename:
  "basename p1 = basename p2 \<Longrightarrow> recycle_key timestamp p1 = recycle_key timestamp p2"
  by (simp add: recycle_key_def)

text \<open>
  C9. Two paths with the same base name, moved in at the same timestamp, get the same
  key. With the store in working order, the index after the second call is the index
  from before the first with the entry of the second path under that key: the entry of
  the first call is overwritten and nothing of it is left.
\<close>

theorem same_key_overwrites:
  assumes ok: "store_ok s" and idx: "load_recycle_index s = JObj kvs"
    and bn: "basename p1 = basename p2"
  shows "let key = recycle_key timestamp p1;
             s1 = snd (move_to_recycle s timestamp p1);
             s2 = snd (move_to_recycle s1 timestamp p2)
         in recycle_key timestamp p2 = key
          \<and> fst (move_to_recycle s timestamp p1) = Inr key
          \<and> fst (move_to_recycle s1 timestamp p2) = Inr key
          \<and> (\<exists>ty sv. load_recycle_index s1 =
                JObj (AList.update key (entry (abspath (getcwd s) p1) ty sv) kvs))
          \<and> (\<exists>ty sv. load_recycle_index s2 =
                JObj (AList.update key (entry (abspath (getcwd s) p2) ty sv) kvs))"
proof -
  define key where "key = recycle_key timestamp p1"
  define s1 where "s1 = snd (move_to_recycle s timestamp p1)"
  define s2 where "s2 = snd (move_to_recycle s1 timestamp p2)"
  have k: "recycle_key timestamp p2 = key"
    using recycle_key_basename [OF bn, of timestamp] by (simp add: key_def)
  note f1 = move_frame [OF ok idx, of timestamp p1, folded s1_def key_def]
  from f1(1) obtain ty1 sv1 where
    l1: "load_recycle_index s1 = JObj (AList.update key (entry (abspath (getcwd s) p1) ty1 sv1) kvs)"
    by (elim exE)
  note ok1 = f1(2) and d1 = f1(3)
  note f2 = move_frame(1) [OF ok1 l1, of timestamp p2, folded s2_def, unfolded k]
  from f2 obtain ty2 sv2 where
    "load_recycle_index s2 =
       JObj (AList.update key (entry (abspath (getcwd s1) p2) ty2 sv2)
              (AList.update key (entry (abspath (getcwd s) p1) ty1 sv1) kvs))"
    by (elim exE)
  then have l2: "load_recycle_index s2 =
       JObj (AList.update key (entry (abspath (getcwd s) p2) ty2 sv2) kvs)"
    using getcwd_dirs_eq [OF d1] by simp
  have r1: "fst (move_to_recycle s timestamp p1) = Inr key"
    using move_returns_key [OF idx] by (simp add: key_def)
  have r2: "fst (move_to_recycle s1 timestamp p2) = Inr key"
    using move_returns_key [OF l1, of timestamp p2] by (simp add: k)
  from k r1 r2 l1 l2 show ?thesis
    unfolding Let_def key_def [symmetric] s1_def [symmetric] s2_def [symmetric] by blast
qed

lemma demo_isfile: "isfile (demo_store c) ''/tmp/a.txt''"
  by (simp add: fs_defs demo_store_def demo_files_def)

theorem same_key_overwrites_witness:
  "store_ok (demo_store (JsonText (JObj demo_index)))
   \<and> load_recycle_index (demo_store (JsonText (JObj demo_index))) = JObj demo_index
   \<and> basename ''/tmp/a.txt'' = basename ''/home/a.txt''
   \<and> recycle_key 5 ''/home/a.txt'' = ''5_a.txt''
   \<and> fst (move_to_recycle (demo_store (JsonText (JObj demo_index))) 5 ''/tmp/a.txt'') = Inr ''5_a.txt''
   \<and> fst (move_to_recycle
             (snd (move_to_recycle (demo_store (JsonText (JObj demo_index))) 5 ''/tmp/a.txt''))
             5 ''/home/a.txt'') = Inr ''5_a.txt''
   \<and> (\<exists>ty sv. load_recycle_index
         (snd (move_to_recycle
                (snd (move_to_recycle (demo_store (JsonText (JObj demo_index))) 5 ''/tmp/a.txt''))
                5 ''/home/a.txt'')) =
         JObj [(''5_a.txt'', entry ''/home/a.txt'' ty sv)])"
proof -
  have h: "load_recycle_index (demo_store (JsonText (JObj demo_index))) = JObj demo_index"
    by (rule demo_load)
  have b: "basename ''/tmp/a.txt'' = basename ''/home/a.txt''"
    by (simp add: basename_def sep_def)
  have a: "abspath wd ''/home/a.txt'' = ''/home/a.txt''" for wd
    by code_simp
  show ?thesis
    using h b demo_store_ok same_key_overwrites [OF demo_store_ok h b, of 5]
    by (auto simp: Let_def key_5_a a demo_index_def)
qed

subsection \<open>A restore that fails\<close>

lemma extends_refl [simp]: "extends s s"
  by (simp add: extends_def)

lemma extends_trans: "extends s s1 \<Longrightarrow> extends s1 s2 \<Longrightarrow> extends s s2"
  by (simp add: extends_def)

lemma extends_put_new: "node_at s l = None \<Longrightarrow> extends s (put s l n)"
  by (auto simp: extends_def node_at_put)

lemma extends_os_mkdir: "os_mkdir s p = Inr s1 \<Longrightarrow> extends s s1"
  by (auto simp: os_mkdir_def extends_put_new split: sum.splits if_splits)

lemma extends_mkdir_exist_ok: "mkdir_exist_ok s p = (r, s1) \<Longrightarrow> extends s s1"
  by (auto simp: mkdir_exist_ok_def extends_os_mkdir split: sum.splits if_splits)

lemma extends_mkdir_parents: "mkdir_parents s n parts = (r, s1) \<Longrightarrow> extends s s1"
proof (induction s n parts arbitrary: r s1 rule: mkdir_parents.induct)
  case (1 s n parts)
  show ?case
  proof (cases "os_mkdir s (path_str n parts)")
    case (Inr s')
    with "1.prems" show ?thesis
      by (simp add: mkdir_parents.simps [of s n parts] extends_os_mkdir)
  next
    case (Inl e)
    show ?thesis
    proof (cases "e = FileNotFoundError \<and> parts \<noteq> []")
      case False
      with Inl "1.prems" show ?thesis
        by (auto simp: mkdir_parents.simps [of s n parts] split: if_splits)
    next
      case True
      obtain r' s' where p: "mkdir_parents s n (butlast parts) = (r', s')"
        by (cases "mkdir_parents s n (butlast parts)")
      from True Inl have e1: "extends s s'"
        using "1.IH" [OF Inl _ _ p] by simp
      show ?thesis
      proof (cases r')
        case (Some e1)
        with True Inl p "1.prems" e1 show ?thesis
          by (simp add: mkdir_parents.simps [of s n parts])
      next
        case None
        with True Inl p "1.prems" have "mkdir_exist_ok s' (path_str n parts) = (r, s1)"
          by (simp add: mkdir_parents.simps [of s n parts])
        then have "extends s' s1" by (rule extends_mkdir_exist_ok)
        with e1 show ?thesis by (rule extends_trans)
      qed
    qed
  qed
qed

lemma walk_extends:
  "extends s s' \<Longrightarrow> walk s cur cs = Inr l \<Longrightarrow> walk s' cur cs = Inr l"
proof (induction cs arbitrary: cur)
  case Nil
  then show ?case by simp
next
  case (Cons c cs)
  from Cons.prems(2) have n: "node_at s cur = Some Dir"
    by (auto split: option.splits node.splits)
  with Cons.prems(1) have "node_at s' cur = Some Dir"
    by (simp add: extends_def)
  with n Cons.prems(2) Cons.IH [OF Cons.prems(1)] show ?case by simp
qed

lemma resolve_extends:
  "extends s s' \<Longrightarrow> resolve s p = Inr l \<Longrightarrow> resolve s' p = Inr l"
  using walk_extends [of s s'] by (auto simp: resolve_def extends_def split: if_splits)

lemma read_text_extends:
  assumes "extends s s'" and "read_text s p = Inr c"
  shows "read_text s' p = Inr c"
proof -
  from assms(2) obtain l where r: "resolve s p = Inr l" and n: "node_at s l = Some (File c)"
    by (auto simp: read_text_def open_rb_def read_handle_def
        split: sum.splits option.splits node.splits)
  from assms(1) r have "resolve s' p = Inr l" by (rule resolve_extends)
  moreover from assms(1) n have "node_at s' l = Some (File c)" by (simp add: extends_def)
  ultimately show ?thesis by (simp add: read_text_def open_rb_def read_handle_def)
qed

lemma extends_restore_copy_fail:
  assumes "restore_copy s ent target_path = (Some e, s1)"
  shows "extends s s1"
proof -
  have "extends s s1" if "mkdir_parent_of s dest = (r, s')" and "s1 = s \<or> s1 = s'" for dest r s'
    using that extends_mkdir_parents [of s _ _ r s'] by (auto simp: mkdir_parent_of_def)
  with assms show ?thesis
    by (auto simp: restore_copy_def split: sum.splits if_splits prod.splits option.splits)
qed

lemma json_loads_Inr: "json_loads c = Inr v \<longleftrightarrow> c = JsonText v"
  by (cases c) auto

lemma load_nonempty_read:
  assumes "load_recycle_index s = JObj kvs" and "kvs \<noteq> []"
  shows "read_text s RECYCLE_INDEX = Inr (JsonText (JObj kvs))"
  using assms
  by (auto simp: load_recycle_index_def json_loads_Inr split: sum.splits)

text \<open>
  C3. For a key that is in the index: when the copy block of \<^verbatim>\<open>restore_from_recycle\<close>
  raises, the call returns \<^verbatim>\<open>False\<close> with the message of the exception, and the index
  document reads exactly as before, so the entry is still there.
\<close>

theorem restore_failure_keeps_index:
  assumes idx: "load_recycle_index s = JObj kvs" and ent: "map_of kvs key = Some ent"
    and fail: "restore_copy s ent target_path = (Some e, s1)"
  shows "restore_from_recycle s key target_path = (Inr (False, StrOf e), s1)
         \<and> read_text s1 RECYCLE_INDEX = read_text s RECYCLE_INDEX
         \<and> load_recycle_index s1 = JObj kvs"
proof -
  from idx ent fail have r: "restore_from_recycle s key target_path = (Inr (False, StrOf e), s1)"
    by (simp add: restore_from_recycle_def restore_try_def)
  from ent have "kvs \<noteq> []" by auto
  with idx have t: "read_text s RECYCLE_INDEX = Inr (JsonText (JObj kvs))"
    by (rule load_nonempty_read)
  have "extends s s1" using fail by (rule extends_restore_copy_fail)
  then have t1: "read_text s1 RECYCLE_INDEX = Inr (JsonText (JObj kvs))"
    using t by (rule read_text_extends)
  then have "load_recycle_index s1 = JObj kvs"
    by (simp add: load_recycle_index_def)
  with r t t1 show ?thesis by simp
qed

lemma parent_tmp_a:
  "initial_slashes ''/tmp/a.txt'' = Suc 0" "butlast (pure_parts ''/tmp/a.txt'') = [''tmp'']"
  "path_str (Suc 0) [''tmp''] = ''/tmp''" "pure_str ''/tmp/a.txt'' = ''/tmp/a.txt''"
  by code_simp+

lemma demo_mkdir_tmp: "mkdir_parent_of (demo_store c) ''/tmp/a.txt'' = (None, demo_store c)"
proof -
  have "os_mkdir (demo_store c) ''/tmp'' = Inl FileExistsError"
    by (simp add: fs_defs demo_store_def demo_files_def)
  moreover have "isdir (demo_store c) ''/tmp''"
    by (simp add: fs_defs demo_store_def demo_files_def)
  ultimately show ?thesis
    by (simp add: mkdir_parent_of_def parent_tmp_a mkdir_parents.simps [of _ "Suc 0" "[''tmp'']"])
qed

lemma demo_copy_back_fails:
  "copy_bytes (demo_store c) ''D:/CinnaOS/recycle_bin/5_a.txt'' ''/tmp/a.txt''
     = Inl FileNotFoundError"
  by (simp add: fs_defs demo_store_def demo_files_def)

lemma demo_restore_copy:
  "restore_copy (demo_store c)
     (entry ''/tmp/a.txt'' ''file'' (JStr ''D:/CinnaOS/recycle_bin/5_a.txt'')) None
   = (Some FileNotFoundError, demo_store c)"
  by (simp add: restore_copy_def entry_def entry_path_def demo_mkdir_tmp pure_str_5_a
      parent_tmp_a demo_copy_back_fails)

theorem restore_failure_keeps_index_witness:
  "load_recycle_index (demo_store (JsonText (JObj demo_index))) = JObj demo_index
   \<and> map_of demo_index ''5_a.txt''
       = Some (entry ''/tmp/a.txt'' ''file'' (JStr ''D:/CinnaOS/recycle_bin/5_a.txt''))
   \<and> restore_copy (demo_store (JsonText (JObj demo_index)))
         (entry ''/tmp/a.txt'' ''file'' (JStr ''D:/CinnaOS/recycle_bin/5_a.txt'')) None
       = (Some FileNotFoundError, demo_store (JsonText (JObj demo_index)))
   \<and> restore_from_recycle (demo_store (JsonText (JObj demo_index))) ''5_a.txt'' None
       = (Inr (False, StrOf FileNotFoundError), demo_store (JsonText (JObj demo_index)))"
proof -
  have h: "load_recycle_index (demo_store (JsonText (JObj demo_index))) = JObj demo_index"
    by (rule demo_load)
  have m: "map_of demo_index ''5_a.txt''
       = Some (entry ''/tmp/a.txt'' ''file'' (JStr ''D:/CinnaOS/recycle_bin/5_a.txt''))"
    by (simp add: demo_index_def)
  show ?thesis
    using h m demo_restore_copy restore_failure_keeps_index [OF h m demo_restore_copy]
    by simp
qed

subsection \<open>Splitting and joining paths\<close>

lemma split_sep_nonempty [simp]: "split_sep p \<noteq> []"
  by (induction p) (auto split: list.splits)

lemma split_sep_sep_free: "sep \<notin> set k \<Longrightarrow> split_sep k = [k]"
  by (induction k) auto

lemma split_sep_append: "split_sep (a @ sep # b) = split_sep a @ split_sep b"
proof (induction a)
  case Nil
  show ?case by simp
next
  case (Cons c a)
  obtain x xs where x: "split_sep a = x # xs"
    by (cases "split_sep a") simp_all
  with Cons show ?case by simp
qed

lemma split_sep_comps: "c \<in> set (split_sep p) \<Longrightarrow> sep \<notin> set c"
proof (induction p arbitrary: c)
  case Nil
  then show ?case by simp
next
  case (Cons a p)
  obtain x xs where x: "split_sep p = x # xs"
    by (cases "split_sep p") simp_all
  with Cons show ?case by (auto split: if_splits)
qed

lemma last_split_sep: "last (split_sep p) = basename p"
proof -
  define d where "d = rev (dropWhile (\<lambda>c. c \<noteq> sep) (rev p))"
  have p: "p = d @ basename p"
    by (simp add: d_def basename_def flip: rev_append)
  have b: "sep \<notin> set (basename p)"
    by (auto simp: basename_def dest: set_takeWhileD)
  show ?thesis
  proof (cases "d = []")
    case True
    with p b show ?thesis by (simp add: split_sep_sep_free)
  next
    case False
    then have "dropWhile (\<lambda>c. c \<noteq> sep) (rev p) \<noteq> []" by (simp add: d_def)
    from hd_dropWhile [OF this] have "last d = sep"
      using False by (simp add: d_def last_rev)
    with False obtain d' where "d = d' @ [sep]"
      by (metis append_butlast_last_id)
    with p have "p = d' @ sep # basename p" by simp
    then have "split_sep p = split_sep d' @ [basename p]"
      using b split_sep_append [of d' "basename p"] by (simp add: split_sep_sep_free)
    then show ?thesis by simp
  qed
qed

subsection \<open>Keys\<close>

lemma digit_char_vals:
  "digit_char 0 = CHR ''0''" "digit_char 1 = CHR ''1''" "digit_char 2 = CHR ''2''"
  "digit_char 3 = CHR ''3''" "digit_char 4 = CHR ''4''" "digit_char 5 = CHR ''5''"
  "digit_char 6 = CHR ''6''" "digit_char 7 = CHR ''7''" "digit_char 8 = CHR ''8''"
  "digit_char 9 = CHR ''9''" "digit_char (Suc 0) = CHR ''1''"
  by code_simp+

lemma digit_char_digit: "d < 10 \<Longrightarrow> digit_char d \<in> set ''0123456789''"
proof -
  assume "d < 10"
  then have "d = 0 \<or> d = 1 \<or> d = 2 \<or> d = 3 \<or> d = 4 \<or> d = 5 \<or> d = 6 \<or> d = 7 \<or> d = 8 \<or> d = 9"
    by arith
  then show ?thesis by (auto simp: digit_char_vals)
qed

lemma digits_set: "set (digits n) \<subseteq> set ''0123456789''"
proof (induction n rule: digits.induct)
  case (1 n)
  show ?case
  proof (cases "n < 10")
    case True
    then show ?thesis using digit_char_digit [of n] by (simp add: digits.simps [of n])
  next
    case False
    have "n mod 10 < 10" by simp
    from digit_char_digit [OF this] False "1.IH" show ?thesis
      by (simp add: digits.simps [of n])
  qed
qed

lemma digits_nonempty: "digits n \<noteq> []"
  by (simp add: digits.simps [of n])

lemma str_of_int_set: "set (str_of_int i) \<subseteq> set ''-0123456789''"
proof -
  have d: "set (digits n) \<subseteq> set ''-0123456789''" for n
    using digits_set [of n] set_subset_Cons [of "''0123456789''" "CHR ''-''"]
    by (rule order_trans)
  show ?thesis
  proof (cases "i < 0")
    case True
    then have "set (str_of_int i) = insert CHR ''-'' (set (digits (nat (- i))))"
      by (simp add: str_of_int_def)
    also have "\<dots> \<subseteq> set ''-0123456789''"
      using d [of "nat (- i)"] by (simp del: set_simps) (simp)
    finally show ?thesis .
  next
    case False
    then show ?thesis using d [of "nat i"] by (simp only: str_of_int_def if_False)
  qed
qed

lemma str_of_int_nonempty: "str_of_int i \<noteq> []"
  by (simp add: str_of_int_def digits_nonempty)

lemma basename_sep_free: "sep \<notin> set (basename p)"
  by (auto simp: basename_def dest: set_takeWhileD)

lemma key_chars:
  "sep \<notin> set ''-0123456789''" "CHR ''.'' \<notin> set ''-0123456789''"
  "CHR ''i'' \<notin> set ''-0123456789''"
  by (simp_all add: sep_def)

lemma recycle_key_hd: "hd (recycle_key timestamp path) \<in> set ''-0123456789''"
proof -
  have "hd (recycle_key timestamp path) = hd (str_of_int timestamp)"
    using str_of_int_nonempty [of timestamp] by (simp add: recycle_key_def Let_def)
  moreover have "hd (str_of_int timestamp) \<in> set (str_of_int timestamp)"
    using str_of_int_nonempty [of timestamp] by (rule hd_in_set)
  ultimately show ?thesis
    using str_of_int_set [of timestamp] by (simp only: subsetD)
qed

lemma recycle_key_nonempty: "recycle_key timestamp path \<noteq> []"
  by (simp add: recycle_key_def Let_def)

lemma recycle_key_sep_free: "sep \<notin> set (recycle_key timestamp path)"
proof -
  have "sep \<notin> set (str_of_int timestamp)"
    using str_of_int_set [of timestamp] key_chars(1) by (rule contra_subsetD)
  moreover have "sep \<notin> set ''unknown''" "sep \<noteq> CHR ''_''"
    by (simp_all add: sep_def)
  ultimately show ?thesis
    using basename_sep_free [of path] by (simp add: recycle_key_def Let_def sep_def)
qed

lemma recycle_key_clean: "clean_name (recycle_key timestamp path)"
proof -
  have "recycle_key timestamp path \<noteq> ''.''" "recycle_key timestamp path \<noteq> ''..''"
    using recycle_key_hd [of timestamp path] key_chars(2) by (auto simp del: set_simps)
  then show ?thesis
    using recycle_key_nonempty recycle_key_sep_free by (simp add: clean_name_def)
qed

lemma recycle_key_not_index: "recycle_key timestamp path \<noteq> ''index.json''"
  using recycle_key_hd [of timestamp path] key_chars(3) by (auto simp del: set_simps)

lemma recycle_key_not_basename: "recycle_key timestamp path \<noteq> basename path"
proof
  assume "recycle_key timestamp path = basename path"
  then have "length (recycle_key timestamp path) = length (basename path)" by simp
  then show False by (simp add: recycle_key_def Let_def split: if_splits)
qed

subsection \<open>Where an archived copy lives\<close>

lemma clean_name_hd: "clean_name key \<Longrightarrow> hd key \<noteq> sep"
  by (cases key) (auto simp: clean_name_def)

lemma clean_name_not_abs: "clean_name key \<Longrightarrow> \<not> isabs key"
  by (cases key) (auto simp: clean_name_def isabs_def)

lemma path_join_key: "clean_name key \<Longrightarrow> path_join RECYCLE_DIR key = RECYCLE_DIR @ sep # key"
  by (simp add: path_join_def clean_name_not_abs) (simp add: RECYCLE_DIR_str sep_def)

lemma split_sep_blob:
  "clean_name key \<Longrightarrow>
   split_sep (RECYCLE_DIR @ sep # key) = [''D:'', ''CinnaOS'', ''recycle_bin'', key]"
  by (simp add: split_sep_append split_RECYCLE_DIR split_sep_sep_free clean_name_def)

lemma initial_slashes_blob: "initial_slashes (RECYCLE_DIR @ sep # key) = 0"
  by (simp add: initial_slashes_def isabs_def RECYCLE_DIR_str sep_def)

lemma join_blob: "join_sep [''D:'', ''CinnaOS'', ''recycle_bin'', key] = RECYCLE_DIR @ sep # key"
  by (simp add: RECYCLE_DIR_str sep_def)

lemma pure_str_blob:
  "clean_name key \<Longrightarrow> pure_str (RECYCLE_DIR @ sep # key) = RECYCLE_DIR @ sep # key"
proof -
  assume c: "clean_name key"
  then have "pure_parts (RECYCLE_DIR @ sep # key) = [''D:'', ''CinnaOS'', ''recycle_bin'', key]"
    by (simp add: pure_parts_def split_sep_blob) (simp add: clean_name_def)
  moreover have "path_str 0 [''D:'', ''CinnaOS'', ''recycle_bin'', key] = RECYCLE_DIR @ sep # key"
    unfolding path_str_def Let_def join_blob by simp
  ultimately show ?thesis
    by (simp only: pure_str_def initial_slashes_blob)
qed

lemma path_div_key:
  assumes "clean_name key"
  shows "path_div RECYCLE_DIR key = RECYCLE_DIR @ sep # key"
    and "split_sep (path_div RECYCLE_DIR key) = [''D:'', ''CinnaOS'', ''recycle_bin'', key]"
    and "pure_str (path_div RECYCLE_DIR key) = path_div RECYCLE_DIR key"
proof -
  show d: "path_div RECYCLE_DIR key = RECYCLE_DIR @ sep # key"
    using assms by (simp only: path_div_def path_join_key pure_str_blob)
  show "split_sep (path_div RECYCLE_DIR key) = [''D:'', ''CinnaOS'', ''recycle_bin'', key]"
    using assms by (simp only: d split_sep_blob)
  show "pure_str (path_div RECYCLE_DIR key) = path_div RECYCLE_DIR key"
    using assms by (simp only: d pure_str_blob)
qed

lemma resolve_blob_walk:
  assumes "clean_name key"
  shows "resolve s (path_div RECYCLE_DIR key)
           = walk s (cwd s) [''D:'', ''CinnaOS'', ''recycle_bin'', key]"
proof -
  have "\<not> isabs (RECYCLE_DIR @ sep # key)" "RECYCLE_DIR @ sep # key \<noteq> []"
    by (simp_all add: isabs_def RECYCLE_DIR_str sep_def)
  then show ?thesis
    using assms by (simp add: resolve_def path_div_key(1) split_sep_blob)
qed

lemma resolve_blob:
  assumes "clean_name key"
  shows "isdir s RECYCLE_DIR \<Longrightarrow> resolve s (path_div RECYCLE_DIR key) = Inr (dir_loc s @ [key])"
    and "\<not> isdir s RECYCLE_DIR \<Longrightarrow> \<exists>e. resolve s (path_div RECYCLE_DIR key) = Inl e"
proof -
  from assms have k: "key \<noteq> []" "key \<noteq> ''.''" "key \<noteq> ''..''"
    by (simp_all add: clean_name_def)
  note r = resolve_blob_walk [OF assms, of s]
  show "isdir s RECYCLE_DIR \<Longrightarrow> resolve s (path_div RECYCLE_DIR key) = Inr (dir_loc s @ [key])"
    using k by (simp add: r isdir_RECYCLE_DIR is_dir_def dir_loc_def)
  show "\<not> isdir s RECYCLE_DIR \<Longrightarrow> \<exists>e. resolve s (path_div RECYCLE_DIR key) = Inl e"
    using k by (auto simp: r isdir_RECYCLE_DIR is_dir_def dir_loc_def
        split: option.splits node.splits)
qed

subsection \<open>The index after move-ins\<close>

lemma archived_entry_none: "archived_entry (entry orig ty JNull)"
  unfolding archived_entry_def by blast

lemma archived_entry_saved:
  "clean_name key \<Longrightarrow> key \<noteq> ''index.json''
   \<Longrightarrow> archived_entry (entry orig ty (JStr (path_div RECYCLE_DIR key)))"
  unfolding archived_entry_def by blast

lemma archived_update:
  assumes "\<forall>(k, v) \<in> set kvs. archived_entry v" and "archived_entry e"
  shows "\<forall>(k, v) \<in> set (AList.update key e kvs). archived_entry v"
  using assms by (induction kvs) (auto split: if_splits)

lemma archived_index_move:
  assumes "archived_index s"
  shows "archived_index (snd (move_to_recycle s timestamp path))"
proof -
  from assms obtain kvs where idx: "load_recycle_index s = JObj kvs"
    and a: "\<forall>(k, v) \<in> set kvs. archived_entry v"
    by (auto simp: archived_index_def)
  from move_shape [OF idx, of timestamp path] obtain ty sv s1 where
    sv: "sv = JNull \<or> sv = JStr (path_div RECYCLE_DIR (recycle_key timestamp path))" and
    m: "move_to_recycle s timestamp path =
             (Inr (recycle_key timestamp path),
              save_recycle_index s1
                (JObj (AList.update (recycle_key timestamp path)
                         (entry (abspath (getcwd s) path) ty sv) kvs)))"
    by blast
  from sv have "archived_entry (entry (abspath (getcwd s) path) ty sv)"
    using archived_entry_none
      archived_entry_saved [OF recycle_key_clean recycle_key_not_index, of _ _ timestamp path]
    by blast
  with a have u: "\<forall>(k, v) \<in> set (AList.update (recycle_key timestamp path)
                         (entry (abspath (getcwd s) path) ty sv) kvs). archived_entry v"
    by (rule archived_update)
  show ?thesis
  proof (cases "store_ok s1")
    case True
    with m u show ?thesis by (simp add: archived_index_def load_save)
  next
    case False
    with m show ?thesis by (simp add: archived_index_def save_fail load_unwritable)
  qed
qed

lemma archived_index_move_all:
  "archived_index s \<Longrightarrow> archived_index (move_all s ms)"
  by (induction s ms rule: move_all.induct) (simp_all add: archived_index_move)

subsection \<open>Emptying the bin\<close>

lemma shrinks_refl [simp]: "shrinks s s"
  by (simp add: shrinks_def)

lemma shrinks_trans:
  assumes "shrinks s s1" and "shrinks s1 s2"
  shows "shrinks s s2"
proof -
  from assms have d: "dirs_eq s s1" "dirs_eq s1 s2"
    by (simp_all add: shrinks_def)
  then have d2: "dirs_eq s s2" by (rule dirs_eq_trans)
  have i: "index_loc s1 = index_loc s" using d(1) by (rule index_loc_dirs_eq)
  have "node_at s2 l = node_at s l \<or> (node_at s2 l = None \<and> l \<noteq> index_loc s)" for l
    using assms i unfolding shrinks_def by metis
  with d2 show ?thesis by (simp add: shrinks_def)
qed

lemma isfile_Inr: "isfile s p \<longleftrightarrow> (\<exists>l c. resolve s p = Inr l \<and> node_at s l = Some (File c))"
  by (auto simp: isfile_def is_file_def split: sum.splits option.splits node.splits)

lemma isfile_shrinks:
  assumes "shrinks s s1" and "\<not> isfile s p"
  shows "\<not> isfile s1 p"
proof
  assume "isfile s1 p"
  then obtain l c where r: "resolve s1 p = Inr l" and n: "node_at s1 l = Some (File c)"
    by (auto simp: isfile_Inr)
  from assms(1) have d: "dirs_eq s s1" by (simp add: shrinks_def)
  from r have "resolve s p = Inr l" using resolve_dirs_eq [OF d] by simp
  moreover from assms(1) n have "node_at s l = Some (File c)"
    unfolding shrinks_def by (metis option.distinct(1))
  ultimately have "isfile s p" by (auto simp: isfile_Inr)
  with assms(2) show False by simp
qed

lemma os_remove_Inl_not_file: "os_remove s p = Inl e \<Longrightarrow> \<not> isfile s p"
  by (auto simp: os_remove_def isfile_Inr split: sum.splits option.splits node.splits)

lemma entry_fields [simp]:
  "py_get (entry orig ty sv) ''saved'' = Inr sv"
  "entry_path (entry orig ty sv) ''saved'' = as_path sv"
  "entry_path (entry orig ty sv) ''orig'' = Inr orig"
  "saved_of (entry orig ty JNull) = []"
  "saved_of (entry orig ty (JStr p)) = (if p = [] then [] else [p])"
  by (simp_all add: entry_def entry_path_def)

lemma blob_path_nonempty: "clean_name key \<Longrightarrow> path_div RECYCLE_DIR key \<noteq> []"
  by (simp add: path_div_key(1))

lemma remove_blob:
  assumes c: "clean_name key" and k: "key \<noteq> ''index.json''"
  shows "\<exists>s1. (case os_remove s (path_div RECYCLE_DIR key) of Inl e \<Rightarrow> s | Inr s' \<Rightarrow> s') = s1
           \<and> shrinks s s1 \<and> \<not> isfile s1 (path_div RECYCLE_DIR key)"
proof (cases "os_remove s (path_div RECYCLE_DIR key)")
  case (Inl e)
  then show ?thesis using os_remove_Inl_not_file [OF Inl] by simp
next
  case (Inr s')
  then obtain l b where r: "resolve s (path_div RECYCLE_DIR key) = Inr l"
    and n: "node_at s l = Some (File b)" and s': "s' = put s l None"
    by (rule os_remove_Inr)
  have dir: "isdir s RECYCLE_DIR"
    using resolve_blob(2) [OF c, of s] r by auto
  with r have l: "l = dir_loc s @ [key]" using resolve_blob(1) [OF c dir] by simp
  with k have li: "l \<noteq> index_loc s" by (simp add: index_loc_def)
  from n have nd: "\<not> is_dir s l" by (simp add: is_dir_def)
  then have d: "dirs_eq s s'" unfolding s' by (simp add: dirs_eq_put)
  have sh: "shrinks s s'"
    using d li by (auto simp: shrinks_def s' node_at_put)
  from n have "l \<noteq> []" by (auto simp: node_at_def split: if_splits)
  then have "node_at s' l = None" by (simp add: s' node_at_put)
  moreover have "resolve s' (path_div RECYCLE_DIR key) = Inr l"
    using resolve_dirs_eq [OF d] r by simp
  ultimately have "\<not> isfile s' (path_div RECYCLE_DIR key)"
    by (simp add: isfile_Inr)
  with sh Inr show ?thesis by simp
qed

lemma empty_loop_archived:
  assumes "\<forall>(k, v) \<in> set kvs. archived_entry v"
  shows "\<exists>s1. empty_loop s kvs = (None, s1) \<and> shrinks s s1
           \<and> (\<forall>p \<in> set (concat (map (\<lambda>(k, v). saved_of v) kvs)). \<not> isfile s1 p)"
  using assms
proof (induction kvs arbitrary: s)
  case Nil
  then show ?case by simp
next
  case (Cons kv kvs)
  obtain k v where kv: "kv = (k, v)" by (cases kv)
  from Cons.prems kv have v: "archived_entry v" and rest: "\<forall>(k, v) \<in> set kvs. archived_entry v"
    by simp_all
  from v consider (none) orig ty where "v = entry orig ty JNull"
    | (saved) orig ty key where "clean_name key" "key \<noteq> ''index.json''"
        "v = entry orig ty (JStr (path_div RECYCLE_DIR key))"
    unfolding archived_entry_def by blast
  then show ?case
  proof cases
    case none
    with Cons.IH [OF rest, of s] kv show ?thesis by simp
  next
    case saved
    let ?t = "path_div RECYCLE_DIR key"
    from remove_blob [OF saved(1,2), of s] obtain s' where
      s': "(case os_remove s ?t of Inl e \<Rightarrow> s | Inr s' \<Rightarrow> s') = s'"
      and sh: "shrinks s s'" and nf: "\<not> isfile s' ?t"
      by blast
    from Cons.IH [OF rest, of s'] obtain s1 where
      l: "empty_loop s' kvs = (None, s1)" and sh1: "shrinks s' s1"
      and nfs: "\<forall>p \<in> set (concat (map (\<lambda>(k, v). saved_of v) kvs)). \<not> isfile s1 p"
      by blast
    have ne: "?t \<noteq> []" using saved(1) by (rule blob_path_nonempty)
    have "empty_loop s (kv # kvs) = empty_loop s' kvs"
      using s' ne by (simp add: kv saved(3) path_div_key(3) [OF saved(1)] split: sum.splits)
    moreover have "shrinks s s1" using sh sh1 by (rule shrinks_trans)
    moreover have "\<not> isfile s1 ?t" using sh1 nf by (rule isfile_shrinks)
    ultimately show ?thesis using l nfs ne by (simp add: kv saved(3))
  qed
qed

lemma isfile_save:
  assumes "isfile (save_recycle_index s idx) p"
  shows "isfile s p \<or> resolve s p = Inr (index_loc s)"
proof -
  from assms obtain l c where r: "resolve (save_recycle_index s idx) p = Inr l"
    and n: "node_at (save_recycle_index s idx) l = Some (File c)"
    by (auto simp: isfile_Inr)
  from r have r': "resolve s p = Inr l" using resolve_dirs_eq [OF dirs_eq_save] by simp
  show ?thesis
  proof (cases "l = index_loc s")
    case True
    with r' show ?thesis by simp
  next
    case False
    with n have "node_at s l = Some (File c)" by (simp add: node_at_save_other)
    with r' show ?thesis by (auto simp: isfile_Inr)
  qed
qed

lemma blob_not_index:
  assumes "clean_name key" and "key \<noteq> ''index.json''"
  shows "resolve s (path_div RECYCLE_DIR key) \<noteq> Inr (index_loc s)"
proof (cases "isdir s RECYCLE_DIR")
  case True
  then show ?thesis using assms by (simp add: resolve_blob(1) index_loc_def)
next
  case False
  then show ?thesis using resolve_blob(2) [OF assms(1) False] by auto
qed

lemma saved_of_archived:
  assumes "\<forall>(k, v) \<in> set kvs. archived_entry v"
    and "p \<in> set (concat (map (\<lambda>(k, v). saved_of v) kvs))"
  shows "\<exists>key. clean_name key \<and> key \<noteq> ''index.json'' \<and> p = path_div RECYCLE_DIR key"
proof -
  from assms(2) obtain k v where kv: "(k, v) \<in> set kvs" and p: "p \<in> set (saved_of v)"
    by auto
  from assms(1) kv have "archived_entry v" by auto
  with p show ?thesis
    unfolding archived_entry_def by (auto split: if_splits)
qed

lemma empty_archived:
  assumes "archived_index s"
  shows "fst (empty_recycle s) = Inr True
         \<and> load_recycle_index (snd (empty_recycle s)) = JObj []
         \<and> (\<forall>p \<in> set (index_saved (load_recycle_index s)). \<not> isfile (snd (empty_recycle s)) p)"
proof -
  from assms obtain kvs where idx: "load_recycle_index s = JObj kvs"
    and a: "\<forall>(k, v) \<in> set kvs. archived_entry v"
    by (auto simp: archived_index_def)
  from empty_loop_archived [OF a, of s] obtain s1 where
    l: "empty_loop s kvs = (None, s1)" and sh: "shrinks s s1"
    and nfs: "\<forall>p \<in> set (concat (map (\<lambda>(k, v). saved_of v) kvs)). \<not> isfile s1 p"
    by blast
  from idx l have e: "empty_recycle s = (Inr True, save_recycle_index s1 (JObj []))"
    by (simp add: empty_recycle_def)
  have "\<not> isfile (save_recycle_index s1 (JObj [])) p"
    if p: "p \<in> set (concat (map (\<lambda>(k, v). saved_of v) kvs))" for p
  proof
    assume f: "isfile (save_recycle_index s1 (JObj [])) p"
    from saved_of_archived [OF a p] obtain key where
      k: "clean_name key" "key \<noteq> ''index.json''" "p = path_div RECYCLE_DIR key"
      by blast
    from isfile_save [OF f] nfs p have "resolve s1 p = Inr (index_loc s1)" by blast
    with blob_not_index [OF k(1,2), of s1] k(3) show False by simp
  qed
  with e idx show ?thesis by (simp add: load_after_save_empty)
qed

lemma dirs_eq_move:
  assumes "load_recycle_index s = JObj kvs"
  shows "dirs_eq s (snd (move_to_recycle s timestamp path))"
proof -
  from move_shape [OF assms, of timestamp path] obtain ty sv s1 where
    d: "dirs_eq s s1" and
    m: "move_to_recycle s timestamp path =
          (Inr (recycle_key timestamp path),
           save_recycle_index s1
             (JObj (AList.update (recycle_key timestamp path)
                      (entry (abspath (getcwd s) path) ty sv) kvs)))"
    by blast
  from m show ?thesis using dirs_eq_trans [OF d dirs_eq_save] by simp
qed

lemma store_ok_move_all:
  "archived_index s \<Longrightarrow> store_ok (move_all s ms) = store_ok s"
proof (induction s ms rule: move_all.induct)
  case (1 s)
  then show ?case by simp
next
  case (2 s timestamp path ms)
  from 2(2) obtain kvs where idx: "load_recycle_index s = JObj kvs"
    by (auto simp: archived_index_def)
  have a: "archived_index (snd (move_to_recycle s timestamp path))"
    using 2(2) by (rule archived_index_move)
  have "store_ok (snd (move_to_recycle s timestamp path)) = store_ok s"
    using dirs_eq_move [OF idx] by (rule store_ok_dirs_eq)
  with 2(1) [OF a] show ?case by simp
qed

lemma empty_loop_removed:
  assumes "\<forall>(k, v) \<in> set kvs. archived_entry v" and "empty_loop s kvs = (r, s1)"
  shows "node_at s1 l = node_at s l
         \<or> (\<exists>p \<in> set (concat (map (\<lambda>(k, v). saved_of v) kvs)). resolve s p = Inr l)"
  using assms
proof (induction kvs arbitrary: s)
  case Nil
  then show ?case by simp
next
  case (Cons kv kvs)
  obtain k v where kv: "kv = (k, v)" by (cases kv)
  from Cons.prems(1) kv have v: "archived_entry v"
    and rest: "\<forall>(k, v) \<in> set kvs. archived_entry v"
    by simp_all
  from v consider (none) orig ty where "v = entry orig ty JNull"
    | (saved) orig ty key where "clean_name key" "key \<noteq> ''index.json''"
        "v = entry orig ty (JStr (path_div RECYCLE_DIR key))"
    unfolding archived_entry_def by blast
  then show ?case
  proof cases
    case none
    with Cons.prems(2) kv have "empty_loop s kvs = (r, s1)" by simp
    from Cons.IH [OF rest this] none kv show ?thesis by auto
  next
    case saved
    let ?t = "path_div RECYCLE_DIR key"
    define s' where "s' = (case os_remove s ?t of Inl e \<Rightarrow> s | Inr s' \<Rightarrow> s')"
    have ne: "?t \<noteq> []" using saved(1) by (rule blob_path_nonempty)
    have "empty_loop s (kv # kvs) = empty_loop s' kvs"
      using ne by (simp add: s'_def kv saved(3) path_div_key(3) [OF saved(1)] split: sum.splits)
    with Cons.prems(2) have l: "empty_loop s' kvs = (r, s1)" by simp
    have d: "dirs_eq s s'"
      unfolding s'_def using dirs_eq_remove [of s ?t] by (cases "os_remove s ?t") simp_all
    have f: "node_at s' l = node_at s l \<or> resolve s ?t = Inr l"
    proof (cases "os_remove s ?t")
      case (Inl e)
      then show ?thesis by (simp add: s'_def)
    next
      case (Inr s2)
      then obtain l0 c where "resolve s ?t = Inr l0" and "node_at s l0 = Some (File c)"
        and "s2 = put s l0 None"
        by (rule os_remove_Inr)
      with Inr show ?thesis by (auto simp: s'_def node_at_put)
    qed
    from Cons.IH [OF rest l] have
      "node_at s1 l = node_at s' l
       \<or> (\<exists>p \<in> set (concat (map (\<lambda>(k, v). saved_of v) kvs)). resolve s p = Inr l)"
      using resolve_dirs_eq [OF d] by simp
    with f ne show ?thesis by (auto simp: kv saved(3))
  qed
qed

lemma empty_archived_frame:
  assumes "archived_index s"
  shows "dirs_eq s (snd (empty_recycle s))"
    and "l \<noteq> index_loc s \<Longrightarrow>
           node_at (snd (empty_recycle s)) l = node_at s l
           \<or> (node_at (snd (empty_recycle s)) l = None
              \<and> (\<exists>p \<in> set (index_saved (load_recycle_index s)). resolve s p = Inr l))"
    and "node_at (snd (empty_recycle s)) (index_loc s) =
           (if store_ok s then Some (File (JsonText (JObj []))) else node_at s (index_loc s))"
    and "store_ok s \<Longrightarrow> read_text (snd (empty_recycle s)) RECYCLE_INDEX = Inr (JsonText (JObj []))"
proof -
  from assms obtain kvs where idx: "load_recycle_index s = JObj kvs"
    and a: "\<forall>(k, v) \<in> set kvs. archived_entry v"
    by (auto simp: archived_index_def)
  from empty_loop_archived [OF a, of s] obtain s1 where
    lp: "empty_loop s kvs = (None, s1)" and sh: "shrinks s s1"
    by blast
  from idx lp have e: "snd (empty_recycle s) = save_recycle_index s1 (JObj [])"
    by (simp add: empty_recycle_def)
  from sh have d: "dirs_eq s s1" by (simp add: shrinks_def)
  have i: "index_loc s1 = index_loc s" using d by (rule index_loc_dirs_eq)
  have ok: "store_ok s1 = store_ok s" using d by (rule store_ok_dirs_eq)
  show d2: "dirs_eq s (snd (empty_recycle s))"
    unfolding e using d dirs_eq_save by (rule dirs_eq_trans)
  show "node_at (snd (empty_recycle s)) l = node_at s l
        \<or> (node_at (snd (empty_recycle s)) l = None
           \<and> (\<exists>p \<in> set (index_saved (load_recycle_index s)). resolve s p = Inr l))"
    if "l \<noteq> index_loc s"
  proof -
    from that i have n: "node_at (snd (empty_recycle s)) l = node_at s1 l"
      by (simp add: e node_at_save_other)
    from sh have "node_at s1 l = node_at s l \<or> node_at s1 l = None"
      unfolding shrinks_def by auto
    moreover from empty_loop_removed [OF a lp, of l] have
      "node_at s1 l = node_at s l
       \<or> (\<exists>p \<in> set (index_saved (load_recycle_index s)). resolve s p = Inr l)"
      by (simp add: idx)
    ultimately show ?thesis unfolding n by blast
  qed
  from sh have ni: "node_at s1 (index_loc s) = node_at s (index_loc s)"
    unfolding shrinks_def by auto
  show n3: "node_at (snd (empty_recycle s)) (index_loc s) =
           (if store_ok s then Some (File (JsonText (JObj []))) else node_at s (index_loc s))"
  proof (cases "store_ok s")
    case True
    with ok have "store_ok s1" by simp
    then show ?thesis using True i by (simp add: e save_ok node_at_put)
  next
    case False
    with ok have "\<not> store_ok s1" by simp
    then show ?thesis using False ni by (simp add: e save_fail)
  qed
  show "read_text (snd (empty_recycle s)) RECYCLE_INDEX = Inr (JsonText (JObj []))"
    if t: "store_ok s"
  proof -
    from t have "isdir s RECYCLE_DIR" by (simp add: store_ok_iff)
    then have "isdir (snd (empty_recycle s)) RECYCLE_DIR" using isdir_dirs_eq [OF d2] by simp
    then have "resolve (snd (empty_recycle s)) RECYCLE_INDEX = Inr (index_loc (snd (empty_recycle s)))"
      by (rule resolve_index)
    then have "resolve (snd (empty_recycle s)) RECYCLE_INDEX = Inr (index_loc s)"
      using index_loc_dirs_eq [OF d2] by simp
    with n3 t show ?thesis by (simp add: read_text_Inr)
  qed
qed

subsection \<open>Walking a path and normalising it\<close>

lemma norm_step_clean:
  assumes "n \<noteq> 0" and "\<forall>x \<in> set cur. clean_name x"
  shows "norm_step n cur c =
           (if c = [] \<or> c = ''.'' then cur else if c = ''..'' then butlast cur else cur @ [c])"
proof (cases "cur = []")
  case True
  with assms(1) show ?thesis by (simp add: norm_step_def)
next
  case False
  then have "last cur \<in> set cur" by simp
  with assms(2) have "last cur \<noteq> ''..''" by (auto simp: clean_name_def)
  with assms(1) False show ?thesis by (simp add: norm_step_def)
qed

lemma walk_step_clean:
  assumes "\<forall>x \<in> set cur. clean_name x" and "sep \<notin> set c"
  shows "\<forall>x \<in> set (if c = [] \<or> c = ''.'' then cur else if c = ''..'' then butlast cur else cur @ [c]).
           clean_name x"
  using assms by (auto simp: clean_name_def dest: in_set_butlastD)

lemma walk_lexical:
  assumes "n \<noteq> 0" and "\<forall>x \<in> set cur. clean_name x" and "\<forall>c \<in> set cs. sep \<notin> set c"
    and "walk s cur cs = Inr L"
  shows "L = foldl (norm_step n) cur cs \<and> (\<forall>x \<in> set L. clean_name x)"
  using assms(2-)
proof (induction cs arbitrary: cur)
  case Nil
  then show ?case by simp
next
  case (Cons c cs)
  let ?cur' = "if c = [] \<or> c = ''.'' then cur else if c = ''..'' then butlast cur else cur @ [c]"
  from Cons.prems(3) have w: "walk s ?cur' cs = Inr L"
    by (auto split: option.splits node.splits)
  from Cons.prems(2) have c: "sep \<notin> set c" and cs: "\<forall>c \<in> set cs. sep \<notin> set c"
    by simp_all
  have cl: "\<forall>x \<in> set ?cur'. clean_name x"
    using Cons.prems(1) c by (rule walk_step_clean)
  have "norm_step n cur c = ?cur'"
    using assms(1) Cons.prems(1) by (rule norm_step_clean)
  with Cons.IH [OF cl cs w] show ?case by simp
qed

lemma dirs_upto_step:
  assumes "dirs_upto s cur" and "is_dir s cur"
  shows "dirs_upto s (if c = [] \<or> c = ''.'' then cur else if c = ''..'' then butlast cur else cur @ [c])"
proof -
  have "dirs_upto s (butlast cur)"
    using assms(1) by (auto simp: dirs_upto_def take_butlast)
  moreover have "dirs_upto s (cur @ [c])"
    unfolding dirs_upto_def
  proof (intro allI impI)
    fix n assume "n < length (cur @ [c])"
    then consider "n < length cur" | "n = length cur" by fastforce
    then show "is_dir s (take n (cur @ [c]))"
      using assms by cases (simp_all add: dirs_upto_def)
  qed
  ultimately show ?thesis using assms(1) by simp
qed

lemma walk_is_dir: "walk s cur (c # cs) = Inr L \<Longrightarrow> is_dir s cur"
  by (auto simp: is_dir_def split: option.splits node.splits)

lemma walk_Cons:
  "walk s cur (c # cs) = Inr L \<Longrightarrow>
   walk s (if c = [] \<or> c = ''.'' then cur else if c = ''..'' then butlast cur else cur @ [c]) cs = Inr L"
  by (auto split: option.splits node.splits)

lemma walk_dirs_upto:
  "dirs_upto s cur \<Longrightarrow> walk s cur cs = Inr L \<Longrightarrow> dirs_upto s L"
proof (induction cs arbitrary: cur)
  case Nil
  then show ?case by simp
next
  case (Cons c cs)
  from Cons.prems(2) have d: "is_dir s cur" by (rule walk_is_dir)
  from Cons.prems(1) d have "dirs_upto s (if c = [] \<or> c = ''.'' then cur
      else if c = ''..'' then butlast cur else cur @ [c])"
    by (rule dirs_upto_step)
  then show ?case using walk_Cons [OF Cons.prems(2)] by (rule Cons.IH)
qed

lemma walk_clean:
  assumes "\<forall>x \<in> set L. clean_name x" and "\<forall>n < length L. is_dir s (cur @ take n L)"
  shows "walk s cur L = Inr (cur @ L)"
  using assms
proof (induction L arbitrary: cur)
  case Nil
  then show ?case by simp
next
  case (Cons c L)
  from Cons.prems(2) have d: "is_dir s cur" by force
  from Cons.prems(1) have c: "c \<noteq> []" "c \<noteq> ''.''" "c \<noteq> ''..''" and cl: "\<forall>x \<in> set L. clean_name x"
    by (simp_all add: clean_name_def)
  have "\<forall>n < length L. is_dir s ((cur @ [c]) @ take n L)"
  proof (intro allI impI)
    fix n assume "n < length L"
    then have "Suc n < length (c # L)" by simp
    with Cons.prems(2) have "is_dir s (cur @ take (Suc n) (c # L))" by blast
    then show "is_dir s ((cur @ [c]) @ take n L)" by simp
  qed
  from Cons.IH [OF cl this] d c show ?case by (simp add: is_dir_def)
qed

lemma walk_canonical:
  "\<forall>x \<in> set L. clean_name x \<Longrightarrow> dirs_upto s L \<Longrightarrow> walk s [] L = Inr L"
  using walk_clean [of L s "[]"] by (simp add: dirs_upto_def)

lemma dirs_upto_butlast_dir:
  assumes "dirs_upto s L"
  shows "is_dir s (butlast L)"
proof (cases "L = []")
  case True
  then show ?thesis by (simp add: is_dir_def)
next
  case False
  then have "length L - 1 < length L" by simp
  with assms have "is_dir s (take (length L - 1) L)" by (simp add: dirs_upto_def)
  then show ?thesis by (simp add: butlast_conv_take)
qed

lemma walk_file_last:
  assumes "dirs_upto s cur" and "cs \<noteq> []" and "walk s cur cs = Inr L" and "is_file s L"
  shows "L \<noteq> [] \<and> last L = last cs"
  using assms
proof (induction cs arbitrary: cur)
  case Nil
  then show ?case by simp
next
  case (Cons c cs)
  let ?cur' = "if c = [] \<or> c = ''.'' then cur else if c = ''..'' then butlast cur else cur @ [c]"
  from Cons.prems(3) have d: "is_dir s cur" by (rule walk_is_dir)
  have w: "walk s ?cur' cs = Inr L" using Cons.prems(3) by (rule walk_Cons)
  have du: "dirs_upto s ?cur'" using Cons.prems(1) d by (rule dirs_upto_step)
  show ?case
  proof (cases "cs = []")
    case False
    with Cons.IH [OF du False w Cons.prems(4)] show ?thesis by simp
  next
    case True
    with w have L: "L = ?cur'" by simp
    have nf: "\<not> is_file s l" if "is_dir s l" for l
      using that by (simp add: is_dir_def is_file_def)
    from Cons.prems(4) L d nf have "\<not> (c = [] \<or> c = ''.'')" by auto
    moreover from Cons.prems(4) L nf dirs_upto_butlast_dir [OF Cons.prems(1)]
    have "c \<noteq> ''..''" by auto
    ultimately show ?thesis using L True by simp
  qed
qed

subsection \<open>Canonical absolute paths\<close>

lemma split_sep_join:
  "L \<noteq> [] \<Longrightarrow> \<forall>c \<in> set L. sep \<notin> set c \<Longrightarrow> split_sep (join_sep L) = L"
proof (induction L rule: join_sep.induct)
  case 1
  then show ?case by simp
next
  case (2 x)
  then show ?case by (simp add: split_sep_sep_free)
next
  case (3 x y ys)
  then show ?case by (simp add: split_sep_append split_sep_sep_free)
qed

lemma split_sep_replicate: "split_sep (replicate n sep @ q) = replicate n [] @ split_sep q"
  by (induction n) simp_all

lemma foldl_norm_empties:
  "foldl (norm_step k) acc (replicate n [] @ xs) = foldl (norm_step k) acc xs"
  by (induction n) (simp_all add: norm_step_def)

lemma foldl_norm_clean:
  assumes "n \<noteq> 0" and "\<forall>x \<in> set L. clean_name x" and "\<forall>x \<in> set acc. clean_name x"
  shows "foldl (norm_step n) acc L = acc @ L"
  using assms(2,3)
proof (induction L arbitrary: acc)
  case Nil
  then show ?case by simp
next
  case (Cons c L)
  from Cons.prems(1) have c: "c \<noteq> []" "c \<noteq> ''.''" "c \<noteq> ''..''" "clean_name c"
    by (simp_all add: clean_name_def)
  have "norm_step n acc c = acc @ [c]"
    using norm_step_clean [OF assms(1) Cons.prems(2), of c] c by simp
  moreover have "foldl (norm_step n) (acc @ [c]) L = (acc @ [c]) @ L"
    using Cons.prems c(4) by (intro Cons.IH) auto
  ultimately show ?case by simp
qed

lemma walk_root_empties: "walk s [] (replicate n [] @ xs) = walk s [] xs"
  by (induction n) simp_all

lemma clean_sep_free: "\<forall>x \<in> set L. clean_name x \<Longrightarrow> \<forall>c \<in> set L. sep \<notin> set c"
  by (simp add: clean_name_def)

lemma hd_join_sep:
  assumes "L \<noteq> []" and "\<forall>x \<in> set L. clean_name x"
  shows "join_sep L \<noteq> [] \<and> hd (join_sep L) \<noteq> sep"
proof -
  from assms(1) obtain x xs where L: "L = x # xs" by (cases L) auto
  with assms(2) have x: "x \<noteq> []" "hd x \<noteq> sep" by (simp_all add: clean_name_hd clean_name_def)
  then show ?thesis unfolding L by (cases xs) simp_all
qed

lemma last_join_sep:
  assumes "L \<noteq> []" and "\<forall>x \<in> set L. clean_name x"
  shows "last (join_sep L) \<noteq> sep"
  using assms
proof (induction L rule: join_sep.induct)
  case 1
  then show ?case by simp
next
  case (2 x)
  then have "x \<noteq> []" "sep \<notin> set x" by (simp_all add: clean_name_def)
  then show ?case by (metis join_sep.simps(2) last_in_set)
next
  case (3 x y ys)
  then have "last (join_sep (y # ys)) \<noteq> sep" by simp
  moreover have "join_sep (y # ys) \<noteq> []" using hd_join_sep [of "y # ys"] "3.prems" by simp
  ultimately show ?case by simp
qed

lemma canonical_slashes:
  assumes "n = 1 \<or> n = 2" and "\<forall>x \<in> set L. clean_name x"
  shows "initial_slashes (replicate n sep @ join_sep L) = n"
proof (cases "L = []")
  case True
  with assms(1) show ?thesis
    by (auto simp: initial_slashes_def isabs_def numeral_2_eq_2)
next
  case False
  from hd_join_sep [OF False assms(2)] obtain c q where q: "join_sep L = c # q" "c \<noteq> sep"
    by (cases "join_sep L") auto
  with assms(1) show ?thesis
    by (auto simp: initial_slashes_def isabs_def numeral_2_eq_2)
qed

lemma canonical_split:
  assumes "\<forall>x \<in> set L. clean_name x"
  shows "split_sep (replicate n sep @ join_sep L) = replicate n [] @ (if L = [] then [[]] else L)"
  using split_sep_join [OF _ clean_sep_free [OF assms]]
  by (simp add: split_sep_replicate)

lemma canonical_parts:
  assumes "\<forall>x \<in> set L. clean_name x"
  shows "pure_parts (replicate n sep @ join_sep L) = L"
proof -
  have "filter (\<lambda>c. c \<noteq> [] \<and> c \<noteq> ''.'') L = L"
    using assms by (auto simp: clean_name_def filter_id_conv)
  then show ?thesis
    by (simp add: pure_parts_def canonical_split [OF assms])
qed

lemma canonical_resolve:
  assumes "n = 1 \<or> n = 2" and "\<forall>x \<in> set L. clean_name x" and "dirs_upto s L"
  shows "resolve s (replicate n sep @ join_sep L) = Inr L"
proof -
  have a: "isabs (replicate n sep @ join_sep L)" "replicate n sep @ join_sep L \<noteq> []"
    using assms(1) by (auto simp: isabs_def numeral_2_eq_2)
  have "walk s [] (if L = [] then [[]] else L) = Inr L"
    using walk_canonical [OF assms(2,3)] by simp
  then show ?thesis
    using a by (simp add: resolve_def canonical_split [OF assms(2)] walk_root_empties)
qed

lemma canonical_path_str:
  "n = 1 \<or> n = 2 \<Longrightarrow> path_str n L = replicate n sep @ join_sep L"
  by (auto simp: path_str_def Let_def)

lemma canonical_pure_str:
  assumes "n = 1 \<or> n = 2" and "\<forall>x \<in> set L. clean_name x"
  shows "pure_str (replicate n sep @ join_sep L) = replicate n sep @ join_sep L"
  using assms by (simp add: pure_str_def canonical_slashes canonical_parts canonical_path_str)

lemma dirs_upto_butlast: "dirs_upto s L \<Longrightarrow> dirs_upto s (butlast L)"
  by (auto simp: dirs_upto_def take_butlast)

lemma canonical_mkdir_parent:
  assumes n: "n = 1 \<or> n = 2" and cl: "\<forall>x \<in> set L. clean_name x" and du: "dirs_upto s L"
  shows "mkdir_parent_of s (replicate n sep @ join_sep L) = (None, s)"
proof -
  let ?p = "path_str n (butlast L)"
  have clb: "\<forall>x \<in> set (butlast L). clean_name x"
    using cl by (auto dest: in_set_butlastD)
  have r: "resolve s ?p = Inr (butlast L)"
    using canonical_resolve [OF n clb dirs_upto_butlast [OF du]]
    by (simp add: canonical_path_str [OF n])
  have d: "is_dir s (butlast L)" using du by (rule dirs_upto_butlast_dir)
  from r d have "os_mkdir s ?p = Inl FileExistsError"
    by (simp add: os_mkdir_def is_dir_def)
  moreover from r d have "isdir s ?p" by (simp add: isdir_def)
  ultimately have "mkdir_parents s n (butlast L) = (None, s)"
    by (simp add: mkdir_parents.simps [of s n "butlast L"])
  then show ?thesis
    by (simp add: mkdir_parent_of_def canonical_slashes [OF n cl] canonical_parts [OF cl])
qed

subsection \<open>The absolute path of a path that resolves\<close>

lemma initial_slashes_abs: "isabs p \<Longrightarrow> initial_slashes p = 1 \<or> initial_slashes p = 2"
  by (simp add: initial_slashes_def)

lemma dirs_upto_root [simp]: "dirs_upto s []"
  by (simp add: dirs_upto_def)

lemma normpath_abs:
  assumes "isabs p"
  shows "normpath p = replicate (initial_slashes p) sep
                        @ join_sep (foldl (norm_step (initial_slashes p)) [] (split_sep p))"
proof -
  from assms have "p \<noteq> []" by (auto simp: isabs_def)
  moreover from initial_slashes_abs [OF assms] have "replicate (initial_slashes p) sep \<noteq> []"
    by auto
  ultimately show ?thesis by (simp add: normpath_def Let_def)
qed

lemma cwd_join:
  assumes "\<forall>c \<in> set (cwd s). clean_name c" and "\<not> isabs P" and "P \<noteq> []"
  shows "isabs (path_join (getcwd s) P)"
    and "initial_slashes (path_join (getcwd s) P) = 1"
    and "foldl (norm_step 1) [] (split_sep (path_join (getcwd s) P))
           = foldl (norm_step 1) (cwd s) (split_sep P)"
proof -
  from assms(2,3) obtain c P' where P: "P = c # P'" "c \<noteq> sep"
    by (cases P) (auto simp: isabs_def)
  show "isabs (path_join (getcwd s) P)"
    using assms(2) by (simp add: path_join_def getcwd_def isabs_def)
  show "initial_slashes (path_join (getcwd s) P) = 1"
  proof (cases "cwd s = []")
    case True
    with assms(2) P show ?thesis
      by (simp add: path_join_def getcwd_def initial_slashes_def isabs_def numeral_2_eq_2)
  next
    case False
    from hd_join_sep [OF False assms(1)] obtain d q where "join_sep (cwd s) = d # q" "d \<noteq> sep"
      by (cases "join_sep (cwd s)") auto
    with assms(2) show ?thesis
      by (simp add: path_join_def getcwd_def initial_slashes_def isabs_def numeral_2_eq_2)
  qed
  show "foldl (norm_step 1) [] (split_sep (path_join (getcwd s) P))
           = foldl (norm_step 1) (cwd s) (split_sep P)"
  proof (cases "cwd s = []")
    case True
    with assms(2) have "path_join (getcwd s) P = sep # P"
      by (simp add: path_join_def getcwd_def)
    with True show ?thesis by (simp add: norm_step_def)
  next
    case False
    from hd_join_sep [OF False assms(1)] last_join_sep [OF False assms(1)]
    have "join_sep (cwd s) \<noteq> []" "last (join_sep (cwd s)) \<noteq> sep" by simp_all
    with assms(2) have "path_join (getcwd s) P = sep # (join_sep (cwd s) @ sep # P)"
      by (simp add: path_join_def getcwd_def)
    then have "split_sep (path_join (getcwd s) P) = [] # (cwd s @ split_sep P)"
      using split_sep_join [OF False clean_sep_free [OF assms(1)]]
      by (simp add: split_sep_append)
    moreover have "foldl (norm_step 1) [] (cwd s) = cwd s"
      using foldl_norm_clean [of 1 "cwd s" "[]"] assms(1) by simp
    ultimately show ?thesis by (simp add: norm_step_def)
  qed
qed

lemma abspath_resolved:
  assumes ok: "cwd_ok s" and r: "resolve s P = Inr L"
  shows "\<exists>n. (n = 1 \<or> n = 2) \<and> abspath (getcwd s) P = replicate n sep @ join_sep L"
    and "\<forall>x \<in> set L. clean_name x"
    and "dirs_upto s L"
proof -
  from r have ne: "P \<noteq> []" by (auto simp: resolve_def split: if_splits)
  have sf: "\<forall>c \<in> set (split_sep P). sep \<notin> set c"
    using split_sep_comps by blast
  from ok have cl: "\<forall>c \<in> set (cwd s). clean_name c" and du: "dirs_upto s (cwd s)"
    by (simp_all add: cwd_ok_def)
  have "(\<exists>n. (n = 1 \<or> n = 2) \<and> abspath (getcwd s) P = replicate n sep @ join_sep L)
        \<and> (\<forall>x \<in> set L. clean_name x) \<and> dirs_upto s L"
  proof (cases "isabs P")
    case True
    with r ne have w: "walk s [] (split_sep P) = Inr L" by (simp add: resolve_def)
    from initial_slashes_abs [OF True] have n: "initial_slashes P \<noteq> 0" by auto
    from walk_lexical [OF n _ sf w]
    have L: "L = foldl (norm_step (initial_slashes P)) [] (split_sep P)"
      and c: "\<forall>x \<in> set L. clean_name x" by simp_all
    have "abspath (getcwd s) P = replicate (initial_slashes P) sep @ join_sep L"
      using True by (simp add: abspath_def normpath_abs L)
    with initial_slashes_abs [OF True] c walk_dirs_upto [OF _ w] show ?thesis by auto
  next
    case False
    with r ne have w: "walk s (cwd s) (split_sep P) = Inr L" by (simp add: resolve_def)
    have "(1::nat) \<noteq> 0" by simp
    from walk_lexical [OF this cl sf w]
    have L: "L = foldl (norm_step 1) (cwd s) (split_sep P)"
      and c: "\<forall>x \<in> set L. clean_name x" by simp_all
    note j = cwd_join [OF cl False ne]
    have "normpath (path_join (getcwd s) P) = replicate 1 sep @ join_sep L"
      using normpath_abs [OF j(1)] unfolding j(2) j(3) L .
    with False have "abspath (getcwd s) P = replicate 1 sep @ join_sep L"
      by (simp add: abspath_def)
    with c walk_dirs_upto [OF du w] show ?thesis by blast
  qed
  then show "\<exists>n. (n = 1 \<or> n = 2) \<and> abspath (getcwd s) P = replicate n sep @ join_sep L"
    and "\<forall>x \<in> set L. clean_name x" and "dirs_upto s L"
    by blast+
qed

subsection \<open>Moving a regular file in and restoring it\<close>

lemma copy_bytes_ok:
  assumes "resolve s src = Inr a" and "node_at s a = Some (File c)"
    and "resolve s dst = Inr b" and "\<not> is_dir s b" and "a \<noteq> b"
  shows "copy_bytes s src dst = Inr (put s b (Some (File c)))"
proof -
  from assms(2) have "a \<noteq> []" by (auto simp: node_at_def split: if_splits)
  with assms show ?thesis
    by (auto simp: copy_bytes_def open_rb_def open_wb_def is_dir_def write_handle_def
        read_handle_def node_at_put split: option.splits node.splits)
qed

lemma copy_bytes_dir:
  assumes "resolve s src = Inr a" and "node_at s a = Some (File c)"
    and "resolve s dst = Inr b" and "is_dir s b"
  shows "copy_bytes s src dst = Inl IsADirectoryError"
  using assms by (simp add: copy_bytes_def open_rb_def open_wb_def is_dir_def)

lemma os_remove_ok:
  "resolve s p = Inr l \<Longrightarrow> node_at s l = Some (File c) \<Longrightarrow> os_remove s p = Inr (put s l None)"
  by (simp add: os_remove_def)

lemma dirs_upto_dirs_eq: "dirs_eq s s' \<Longrightarrow> dirs_upto s' L = dirs_upto s L"
  by (simp add: dirs_upto_def dirs_eq_def)

lemma is_dir_dirs_eq: "dirs_eq s s' \<Longrightarrow> is_dir s' l = is_dir s l"
  by (simp add: dirs_eq_def)

lemma resolve_file_last:
  assumes "cwd_ok s" and "resolve s P = Inr L" and "node_at s L = Some (File B)"
  shows "L \<noteq> [] \<and> last L = basename P"
proof -
  from assms(2) have ne: "P \<noteq> []" by (auto simp: resolve_def split: if_splits)
  let ?cur = "if isabs P then [] else cwd s"
  from assms(1) have "dirs_upto s ?cur" by (simp add: cwd_ok_def)
  moreover from assms(2) ne have "walk s ?cur (split_sep P) = Inr L" by (simp add: resolve_def)
  moreover from assms(3) have "is_file s L" by (simp add: is_file_def)
  ultimately have "L \<noteq> [] \<and> last L = last (split_sep P)"
    using walk_file_last [of s ?cur "split_sep P" L] by simp
  then show ?thesis by (simp add: last_split_sep)
qed

lemma node_at_File_nonempty: "node_at s l = Some (File c) \<Longrightarrow> l \<noteq> []"
  by (auto simp: node_at_def split: if_splits)

lemma move_file_ok:
  assumes idx: "load_recycle_index s = JObj kvs"
    and r: "resolve s P = Inr L" and f: "node_at s L = Some (File B)"
    and rt: "resolve s (path_div RECYCLE_DIR (recycle_key timestamp P)) = Inr T"
    and nd: "\<not> is_dir s T" and LT: "L \<noteq> T"
  shows "move_to_recycle s timestamp P =
           (Inr (recycle_key timestamp P),
            save_recycle_index (put (put s T (Some (File B))) L None)
              (JObj (AList.update (recycle_key timestamp P)
                       (entry (abspath (getcwd s) P) ''file''
                          (JStr (path_div RECYCLE_DIR (recycle_key timestamp P)))) kvs)))"
proof -
  let ?t = "path_div RECYCLE_DIR (recycle_key timestamp P)"
  let ?sA = "put s T (Some (File B))"
  from r f have isf: "isfile s P" by (auto simp: isfile_Inr)
  have c: "copy_bytes s P ?t = Inr ?sA"
    using r f rt nd LT by (rule copy_bytes_ok)
  have d: "dirs_eq s ?sA" using nd by (simp add: dirs_eq_put)
  have rA: "resolve ?sA P = Inr L" using resolve_dirs_eq [OF d] r by simp
  have fA: "node_at ?sA L = Some (File B)"
    using f LT node_at_File_nonempty [OF f] by (simp add: node_at_put)
  have rm: "os_remove ?sA P = Inr (put ?sA L None)"
    using rA fA by (rule os_remove_ok)
  from idx isf c rm show ?thesis
    by (simp add: move_to_recycle_def move_try_def Let_def)
qed

lemma restore_file_ok:
  assumes idx1: "load_recycle_index s1 = JObj idx1"
    and ent: "map_of idx1 key = Some (entry orig ty (JStr t))"
    and tne: "t \<noteq> []" and pt: "pure_str t = t"
    and rt: "resolve s1 t = Inr T" and fT: "node_at s1 T = Some (File B)"
    and mk: "mkdir_parent_of s1 orig = (None, s1)"
    and ro: "resolve s1 (pure_str orig) = Inr L" and ndL: "\<not> is_dir s1 L" and LT: "L \<noteq> T"
  shows "restore_from_recycle s1 key None =
           (Inr (True, Msg ''Restored''),
            save_recycle_index (put (put s1 L (Some (File B))) T None)
              (JObj (AList.delete key idx1)))"
proof -
  let ?ent = "entry orig ty (JStr t)"
  let ?sC = "put s1 L (Some (File B))"
  have cp: "copy_bytes s1 (pure_str t) (pure_str orig) = Inr ?sC"
    unfolding pt using rt fT ro ndL LT [symmetric] by (rule copy_bytes_ok)
  have c: "restore_copy s1 ?ent None = (None, ?sC)"
    using tne mk cp by (simp add: restore_copy_def)
  have d: "dirs_eq s1 ?sC" using ndL by (simp add: dirs_eq_put)
  have rC: "resolve ?sC t = Inr T" using resolve_dirs_eq [OF d] rt by simp
  have fC: "node_at ?sC T = Some (File B)"
    using fT LT node_at_File_nonempty [OF fT] by (simp add: node_at_put)
  have "os_remove ?sC (pure_str t) = Inr (put ?sC T None)"
    unfolding pt using rC fC by (rule os_remove_ok)
  then have u: "restore_unlink ?sC ?ent = (None, put ?sC T None)"
    using tne by (simp add: restore_unlink_def)
  from idx1 ent c u show ?thesis
    by (simp add: restore_from_recycle_def restore_try_def)
qed

lemma node_at_save_index:
  "store_ok s \<Longrightarrow> node_at (save_recycle_index s idx) (index_loc s) = Some (File (JsonText idx))"
  by (simp add: save_ok node_at_put)

lemma move_restore_state:
  assumes cw: "cwd_ok s" and ok: "store_ok s" and idx: "load_recycle_index s = JObj kvs"
    and r: "resolve s path = Inr L" and f: "node_at s L = Some (File B)"
  shows "\<exists>s2. fst (move_to_recycle s timestamp path) = Inr (recycle_key timestamp path)
      \<and> restore_from_recycle (snd (move_to_recycle s timestamp path))
            (recycle_key timestamp path) None
           = (Inr (True, Msg ''Restored''), s2)
      \<and> dirs_eq s s2
      \<and> node_at s2 L = Some (File (if L = index_loc s
            then JsonText (JObj (AList.delete (recycle_key timestamp path) kvs)) else B))
      \<and> \<not> is_file s2 (dir_loc s @ [recycle_key timestamp path])
      \<and> load_recycle_index s2 = JObj (AList.delete (recycle_key timestamp path) kvs)"
proof -
  define key where "key = recycle_key timestamp path"
  define t where "t = path_div RECYCLE_DIR key"
  define orig where "orig = abspath (getcwd s) path"
  define T where "T = dir_loc s @ [key]"
  let ?B' = "if L = index_loc s then JsonText (JObj (AList.delete key kvs)) else B"
  have ck: "clean_name key" unfolding key_def by (rule recycle_key_clean)
  have kni: "key \<noteq> ''index.json''" unfolding key_def by (rule recycle_key_not_index)
  from ok have dir: "isdir s RECYCLE_DIR" by (simp add: store_ok_def)
  have rt: "resolve s t = Inr T"
    unfolding t_def T_def using ck dir by (rule resolve_blob(1))
  have TI: "T \<noteq> index_loc s" using kni by (simp add: T_def index_loc_def)
  from resolve_file_last [OF cw r f] have "last L = basename path" by simp
  moreover have "last T = key" by (simp add: T_def)
  moreover have "key \<noteq> basename path" unfolding key_def by (rule recycle_key_not_basename)
  ultimately have LT: "L \<noteq> T" by auto
  have Lne: "L \<noteq> []" using f by (rule node_at_File_nonempty)
  have Tne: "T \<noteq> []" by (simp add: T_def)
  from abspath_resolved [OF cw r] obtain n where
    n: "n = 1 \<or> n = 2" and o: "orig = replicate n sep @ join_sep L"
    and cl: "\<forall>x \<in> set L. clean_name x" and du: "dirs_upto s L"
    unfolding orig_def by blast
  have tne: "t \<noteq> []" unfolding t_def using ck by (rule blob_path_nonempty)
  have pt: "pure_str t = t" unfolding t_def using ck by (rule path_div_key(3))
  have res: "\<exists>s2. fst (move_to_recycle s timestamp path) = Inr key
      \<and> restore_from_recycle (snd (move_to_recycle s timestamp path)) key None
           = (Inr (True, Msg ''Restored''), s2)
      \<and> dirs_eq s s2 \<and> node_at s2 L = Some (File ?B') \<and> \<not> is_file s2 T
      \<and> load_recycle_index s2 = JObj (AList.delete key kvs)"
  proof (cases "is_dir s T")
    case True
    let ?e = "entry orig ''error'' JNull"
    define s1 where "s1 = save_recycle_index s (JObj (AList.update key ?e kvs))"
    define s2 where "s2 = save_recycle_index s1 (JObj (AList.delete key kvs))"
    from r f have isf: "isfile s path" by (auto simp: isfile_Inr)
    have "copy_bytes s path t = Inl IsADirectoryError"
      using r f rt True by (rule copy_bytes_dir)
    with idx isf have m: "move_to_recycle s timestamp path = (Inr key, s1)"
      by (simp add: move_to_recycle_def move_try_def Let_def key_def t_def orig_def s1_def)
    have d1: "dirs_eq s s1" unfolding s1_def by (rule dirs_eq_save)
    from ok have ok1: "store_ok s1" by (simp add: s1_def store_ok_save)
    from ok have l1: "load_recycle_index s1 = JObj (AList.update key ?e kvs)"
      by (simp add: s1_def load_save)
    have "map_of (AList.update key ?e kvs) key = Some ?e" by (simp add: update_conv')
    from restore_plain_entry [OF ok1 l1 this, of None]
    have rs: "restore_from_recycle s1 key None = (Inr (True, Msg ''Restored''), s2)"
      by (simp add: s2_def delete_update_same)
    have d2: "dirs_eq s s2"
      using d1 dirs_eq_save [of s1] unfolding s2_def by (rule dirs_eq_trans)
    have i1: "index_loc s1 = index_loc s" using d1 by (rule index_loc_dirs_eq)
    have nL: "node_at s2 L = Some (File ?B')"
    proof (cases "L = index_loc s")
      case True
      then show ?thesis using ok1 i1 by (simp add: s2_def node_at_save_index [of s1, unfolded i1])
    next
      case False
      with f i1 show ?thesis by (simp add: s2_def s1_def node_at_save_other)
    qed
    have "is_dir s2 T" using True is_dir_dirs_eq [OF d2] by simp
    then have nT: "\<not> is_file s2 T" by (simp add: is_dir_def is_file_def)
    from ok1 have l2: "load_recycle_index s2 = JObj (AList.delete key kvs)"
      by (simp add: s2_def load_save)
    from m rs d2 nL nT l2 show ?thesis by simp
  next
    case False
    let ?e = "entry orig ''file'' (JStr t)"
    let ?idx1 = "AList.update key ?e kvs"
    define sB where "sB = put (put s T (Some (File B))) L None"
    define s1 where "s1 = save_recycle_index sB (JObj ?idx1)"
    define sD where "sD = put (put s1 L (Some (File B))) T None"
    define s2 where "s2 = save_recycle_index sD (JObj (AList.delete key ?idx1))"
    have m: "move_to_recycle s timestamp path = (Inr key, s1)"
      using move_file_ok [OF idx r f rt [unfolded t_def key_def] False LT]
      by (simp add: key_def t_def orig_def s1_def sB_def)
    have dA: "dirs_eq s (put s T (Some (File B)))" using False by (simp add: dirs_eq_put)
    have "\<not> is_dir (put s T (Some (File B))) L"
      using f is_dir_dirs_eq [OF dA] by (simp add: is_dir_def)
    then have "dirs_eq (put s T (Some (File B))) sB"
      unfolding sB_def by (simp add: dirs_eq_put)
    with dA have dB: "dirs_eq s sB" by (rule dirs_eq_trans)
    have d1: "dirs_eq s s1"
      using dB dirs_eq_save [of sB] unfolding s1_def by (rule dirs_eq_trans)
    from ok dB have okB: "store_ok sB" by (simp add: store_ok_dirs_eq)
    then have ok1: "store_ok s1" by (simp add: s1_def store_ok_save)
    from okB have l1: "load_recycle_index s1 = JObj ?idx1" by (simp add: s1_def load_save)
    have iB: "index_loc sB = index_loc s" using dB by (rule index_loc_dirs_eq)
    have i1: "index_loc s1 = index_loc s" using d1 by (rule index_loc_dirs_eq)
    have e: "map_of ?idx1 key = Some ?e" by (simp add: update_conv')
    have rt1: "resolve s1 t = Inr T" using resolve_dirs_eq [OF d1] rt by simp
    have fT1: "node_at s1 T = Some (File B)"
      using TI iB LT Tne by (simp add: s1_def node_at_save_other sB_def node_at_put)
    have ndL1: "\<not> is_dir s1 L"
    proof (cases "L = index_loc s")
      case True
      then show ?thesis
        using okB iB by (simp add: is_dir_def s1_def node_at_save_index [of sB, unfolded iB])
    next
      case False
      with iB Lne have "node_at s1 L = None"
        by (simp add: s1_def node_at_save_other sB_def node_at_put)
      then show ?thesis by (simp add: is_dir_def)
    qed
    have du1: "dirs_upto s1 L" using du dirs_upto_dirs_eq [OF d1] by simp
    have mk: "mkdir_parent_of s1 orig = (None, s1)"
      unfolding o using n cl du1 by (rule canonical_mkdir_parent)
    have ro: "resolve s1 (pure_str orig) = Inr L"
      unfolding o canonical_pure_str [OF n cl] using n cl du1 by (rule canonical_resolve)
    have rs: "restore_from_recycle s1 key None = (Inr (True, Msg ''Restored''), s2)"
      using restore_file_ok [OF l1 e tne pt rt1 fT1 mk ro ndL1 LT]
      by (simp add: s2_def sD_def)
    have dC: "dirs_eq s1 (put s1 L (Some (File B)))" using ndL1 by (simp add: dirs_eq_put)
    have "\<not> is_dir (put s1 L (Some (File B))) T"
      using fT1 LT Tne by (simp add: is_dir_def node_at_put)
    then have "dirs_eq (put s1 L (Some (File B))) sD"
      unfolding sD_def by (simp add: dirs_eq_put)
    with dC have dD1: "dirs_eq s1 sD" by (rule dirs_eq_trans)
    with d1 have dD: "dirs_eq s sD" by (rule dirs_eq_trans)
    have d2: "dirs_eq s s2"
      using dD dirs_eq_save [of sD] unfolding s2_def by (rule dirs_eq_trans)
    from ok dD have okD: "store_ok sD" by (simp add: store_ok_dirs_eq)
    have iD: "index_loc sD = index_loc s" using dD by (rule index_loc_dirs_eq)
    have nL: "node_at s2 L = Some (File ?B')"
    proof (cases "L = index_loc s")
      case True
      then show ?thesis
        using okD iD
        by (simp add: s2_def node_at_save_index [of sD, unfolded iD] delete_update_same)
    next
      case False
      with iD LT Lne show ?thesis
        by (simp add: s2_def node_at_save_other sD_def node_at_put)
    qed
    have "node_at s2 T = None"
      using TI iD Tne by (simp add: s2_def node_at_save_other sD_def node_at_put)
    then have nT: "\<not> is_file s2 T" by (simp add: is_file_def)
    from okD have l2: "load_recycle_index s2 = JObj (AList.delete key kvs)"
      by (simp add: s2_def load_save delete_update_same)
    from m rs d2 nL nT l2 show ?thesis by simp
  qed
  then show ?thesis unfolding key_def T_def .
qed

text \<open>
  C1, as the code has it. Take a store in working order whose index loads as a mapping,
  and a path that names a regular file other than the index document. Moving the file
  in and restoring the returned key with no target both succeed; afterwards the path
  names a regular file with the content it had, nothing is archived under the key any
  more, and the index is the one from before without the key.
\<close>

theorem move_then_restore:
  assumes cw: "cwd_ok s" and ok: "store_ok s" and idx: "load_recycle_index s = JObj kvs"
    and rd: "read_text s path = Inr B"
    and ni: "resolve s path \<noteq> Inr (index_loc s)"
  shows "let key = recycle_key timestamp path;
             s1 = snd (move_to_recycle s timestamp path);
             s2 = snd (restore_from_recycle s1 key None)
         in fst (move_to_recycle s timestamp path) = Inr key
          \<and> fst (restore_from_recycle s1 key None) = Inr (True, Msg ''Restored'')
          \<and> read_text s2 path = Inr B
          \<and> \<not> isfile s2 (path_div RECYCLE_DIR key)
          \<and> load_recycle_index s2 = JObj (AList.delete key kvs)
          \<and> py_contains (load_recycle_index s2) key = Inr False"
proof -
  define key where "key = recycle_key timestamp path"
  from rd obtain L where r: "resolve s path = Inr L" and f: "node_at s L = Some (File B)"
    by (auto simp: read_text_Inr)
  from ni r have LI: "L \<noteq> index_loc s" by simp
  from move_restore_state [OF cw ok idx r f, of timestamp] LI obtain s2 where
    m: "fst (move_to_recycle s timestamp path) = Inr key"
    and rs: "restore_from_recycle (snd (move_to_recycle s timestamp path)) key None
           = (Inr (True, Msg ''Restored''), s2)"
    and d2: "dirs_eq s s2" and nL: "node_at s2 L = Some (File B)"
    and nT: "\<not> is_file s2 (dir_loc s @ [key])"
    and l2: "load_recycle_index s2 = JObj (AList.delete key kvs)"
    unfolding key_def by auto
  have ck: "clean_name key" unfolding key_def by (rule recycle_key_clean)
  from ok have dir: "isdir s RECYCLE_DIR" by (simp add: store_ok_def)
  have rt: "resolve s (path_div RECYCLE_DIR key) = Inr (dir_loc s @ [key])"
    using ck dir by (rule resolve_blob(1))
  have "resolve s2 path = Inr L" using resolve_dirs_eq [OF d2] r by simp
  with nL have c1: "read_text s2 path = Inr B" by (auto simp: read_text_Inr)
  have "resolve s2 (path_div RECYCLE_DIR key) = Inr (dir_loc s @ [key])"
    using resolve_dirs_eq [OF d2] rt by simp
  with nT have c2: "\<not> isfile s2 (path_div RECYCLE_DIR key)" by (simp add: isfile_def)
  have c3: "py_contains (JObj (AList.delete key kvs)) key = Inr False"
    by (simp add: delete_conv')
  from m rs c1 c2 l2 c3 show ?thesis
    by (simp add: Let_def key_def [symmetric])
qed

subsection \<open>The sample store, moved in and restored\<close>

lemma demo_cwd_ok: "cwd_ok (demo_store c)"
  by (simp add: cwd_ok_def demo_store_def)

lemma demo_index_loc:
  "index_loc (demo_store c) = [''D:'', ''CinnaOS'', ''recycle_bin'', ''index.json'']"
  "dir_loc (demo_store c) = [''D:'', ''CinnaOS'', ''recycle_bin'']"
  by (simp_all add: index_loc_def dir_loc_def demo_store_def)

lemma demo_resolve_a: "resolve (demo_store c) ''/tmp/a.txt'' = Inr [''tmp'', ''a.txt'']"
  by (simp add: fs_defs demo_store_def demo_files_def)

lemma demo_node_a: "node_at (demo_store c) [''tmp'', ''a.txt''] = Some (File (Bytes ''hi''))"
  by (simp add: fs_defs demo_store_def demo_files_def)

lemma demo_read_a: "read_text (demo_store c) ''/tmp/a.txt'' = Inr (Bytes ''hi'')"
  by (simp add: read_text_Inr demo_resolve_a demo_node_a)

theorem move_then_restore_witness:
  "cwd_ok (demo_store (JsonText (JObj [])))
   \<and> store_ok (demo_store (JsonText (JObj [])))
   \<and> load_recycle_index (demo_store (JsonText (JObj []))) = JObj []
   \<and> read_text (demo_store (JsonText (JObj []))) ''/tmp/a.txt'' = Inr (Bytes ''hi'')
   \<and> resolve (demo_store (JsonText (JObj []))) ''/tmp/a.txt''
       \<noteq> Inr (index_loc (demo_store (JsonText (JObj []))))
   \<and> fst (move_to_recycle (demo_store (JsonText (JObj []))) 5 ''/tmp/a.txt'') = Inr ''5_a.txt''
   \<and> fst (restore_from_recycle
             (snd (move_to_recycle (demo_store (JsonText (JObj []))) 5 ''/tmp/a.txt''))
             ''5_a.txt'' None) = Inr (True, Msg ''Restored'')
   \<and> read_text (snd (restore_from_recycle
             (snd (move_to_recycle (demo_store (JsonText (JObj []))) 5 ''/tmp/a.txt''))
             ''5_a.txt'' None)) ''/tmp/a.txt'' = Inr (Bytes ''hi'')
   \<and> \<not> isfile (snd (restore_from_recycle
             (snd (move_to_recycle (demo_store (JsonText (JObj []))) 5 ''/tmp/a.txt''))
             ''5_a.txt'' None)) ''D:/CinnaOS/recycle_bin/5_a.txt''
   \<and> load_recycle_index (snd (restore_from_recycle
             (snd (move_to_recycle (demo_store (JsonText (JObj []))) 5 ''/tmp/a.txt''))
             ''5_a.txt'' None)) = JObj []"
proof -
  have h: "load_recycle_index (demo_store (JsonText (JObj []))) = JObj []"
    by (rule demo_load)
  have ni: "resolve (demo_store (JsonText (JObj []))) ''/tmp/a.txt''
       \<noteq> Inr (index_loc (demo_store (JsonText (JObj []))))"
    by (simp add: demo_resolve_a demo_index_loc)
  show ?thesis
    using h ni demo_cwd_ok demo_store_ok demo_read_a
      move_then_restore [OF demo_cwd_ok demo_store_ok h demo_read_a ni, of 5]
    by (auto simp: Let_def key_5_a target_5_a)
qed

lemma demo_load_bytes: "load_recycle_index (demo_store (Bytes b)) = JObj []"
  by (simp add: load_eq demo_isdir demo_index_loc) (simp add: fs_defs demo_store_def demo_files_def)

lemma demo_resolve_index:
  "resolve (demo_store c) ''D:/CinnaOS/recycle_bin/index.json''
     = Inr [''D:'', ''CinnaOS'', ''recycle_bin'', ''index.json'']"
  by (simp add: fs_defs demo_store_def demo_files_def)

lemma demo_node_index:
  "node_at (demo_store c) [''D:'', ''CinnaOS'', ''recycle_bin'', ''index.json''] = Some (File c)"
  by (simp add: fs_defs demo_store_def demo_files_def)

lemma key_5_index: "recycle_key 5 ''D:/CinnaOS/recycle_bin/index.json'' = ''5_index.json''"
  by code_simp

text \<open>
  C1 as stated fails when the path is the index document itself. Here the index
  document holds bytes that are not JSON, and is moved in and restored: both calls
  succeed, and the file at the path then holds the text of the empty mapping, which the
  last save of the index wrote over the restored bytes.
\<close>

theorem move_then_restore_index_counterexample:
  "read_text (demo_store (Bytes ''garbage'')) ''D:/CinnaOS/recycle_bin/index.json''
     = Inr (Bytes ''garbage'')
   \<and> isfile (demo_store (Bytes ''garbage'')) ''D:/CinnaOS/recycle_bin/index.json''
   \<and> fst (move_to_recycle (demo_store (Bytes ''garbage'')) 5 ''D:/CinnaOS/recycle_bin/index.json'')
       = Inr ''5_index.json''
   \<and> fst (restore_from_recycle
            (snd (move_to_recycle (demo_store (Bytes ''garbage'')) 5
                    ''D:/CinnaOS/recycle_bin/index.json''))
            ''5_index.json'' None) = Inr (True, Msg ''Restored'')
   \<and> read_text
         (snd (restore_from_recycle
                 (snd (move_to_recycle (demo_store (Bytes ''garbage'')) 5
                         ''D:/CinnaOS/recycle_bin/index.json''))
                 ''5_index.json'' None))
         ''D:/CinnaOS/recycle_bin/index.json''
       = Inr (JsonText (JObj []))
   \<and> read_text
         (snd (restore_from_recycle
                 (snd (move_to_recycle (demo_store (Bytes ''garbage'')) 5
                         ''D:/CinnaOS/recycle_bin/index.json''))
                 ''5_index.json'' None))
         ''D:/CinnaOS/recycle_bin/index.json''
       \<noteq> Inr (Bytes ''garbage'')"
proof -
  let ?S = "demo_store (Bytes ''garbage'')"
  let ?P = "''D:/CinnaOS/recycle_bin/index.json''"
  let ?I = "[''D:'', ''CinnaOS'', ''recycle_bin'', ''index.json'']"
  have r: "resolve ?S ?P = Inr ?I" by (rule demo_resolve_index)
  have f: "node_at ?S ?I = Some (File (Bytes ''garbage''))" by (rule demo_node_index)
  from r f have rd: "read_text ?S ?P = Inr (Bytes ''garbage'')" and isf: "isfile ?S ?P"
    by (auto simp: read_text_Inr isfile_Inr)
  from move_restore_state [OF demo_cwd_ok demo_store_ok demo_load_bytes r f, of 5]
  obtain s2 where m: "fst (move_to_recycle ?S 5 ?P) = Inr ''5_index.json''"
    and rs: "restore_from_recycle (snd (move_to_recycle ?S 5 ?P)) ''5_index.json'' None
               = (Inr (True, Msg ''Restored''), s2)"
    and d: "dirs_eq ?S s2" and n: "node_at s2 ?I = Some (File (JsonText (JObj [])))"
    by (auto simp: key_5_index demo_index_loc)
  have "resolve s2 ?P = Inr ?I" using resolve_dirs_eq [OF d] r by simp
  with n have "read_text s2 ?P = Inr (JsonText (JObj []))" by (auto simp: read_text_Inr)
  with rd isf m rs show ?thesis by simp
qed

subsection \<open>Emptying after move-ins\<close>

text \<open>
  C5. Start from a store whose index is empty and move in any sequence of paths at any
  timestamps. Then \<^verbatim>\<open>empty_recycle\<close> returns \<^verbatim>\<open>True\<close> without raising, whether the
  archived files are still there or not. Afterwards no saved path of the index names a
  file any more and the index loads as the empty mapping; with the store in working
  order the index document holds the empty mapping, and otherwise it is left as it was.
  Nothing else changes: the working directory and the directories are as before, and a
  location other than the index document either keeps its node or is a place that a
  saved path of the index names, now empty.
\<close>

theorem empty_after_moves:
  assumes "load_recycle_index s0 = JObj []"
  shows "let s = move_all s0 ms; r = empty_recycle s
         in fst r = Inr True
          \<and> load_recycle_index (snd r) = JObj []
          \<and> (\<forall>p \<in> set (index_saved (load_recycle_index s)). \<not> isfile (snd r) p)
          \<and> (store_ok s0 \<longrightarrow> read_text (snd r) RECYCLE_INDEX = Inr (JsonText (JObj [])))
          \<and> node_at (snd r) (index_loc s) =
              (if store_ok s0 then Some (File (JsonText (JObj []))) else node_at s (index_loc s))
          \<and> cwd (snd r) = cwd s
          \<and> (\<forall>l. is_dir (snd r) l = is_dir s l)
          \<and> (\<forall>l. l \<noteq> index_loc s \<longrightarrow>
                 node_at (snd r) l = node_at s l
                 \<or> (node_at (snd r) l = None
                    \<and> (\<exists>p \<in> set (index_saved (load_recycle_index s)). resolve s p = Inr l)))"
proof -
  from assms have a0: "archived_index s0" by (simp add: archived_index_def)
  then have a: "archived_index (move_all s0 ms)" by (rule archived_index_move_all)
  have ok: "store_ok (move_all s0 ms) = store_ok s0" using a0 by (rule store_ok_move_all)
  from empty_archived [OF a] empty_archived_frame [OF a] ok show ?thesis
    by (simp add: Let_def dirs_eq_def)
qed

lemma demo_moved:
  "move_to_recycle (demo_store (JsonText (JObj []))) 5 ''/tmp/a.txt'' =
     (Inr ''5_a.txt'',
      save_recycle_index
        (put (put (demo_store (JsonText (JObj [])))
                [''D:'', ''CinnaOS'', ''recycle_bin'', ''5_a.txt''] (Some (File (Bytes ''hi''))))
           [''tmp'', ''a.txt''] None)
        (JObj [(''5_a.txt'',
                entry ''/tmp/a.txt'' ''file'' (JStr ''D:/CinnaOS/recycle_bin/5_a.txt''))]))"
proof -
  let ?S = "demo_store (JsonText (JObj []))"
  have rt: "resolve ?S (path_div RECYCLE_DIR (recycle_key 5 ''/tmp/a.txt''))
              = Inr [''D:'', ''CinnaOS'', ''recycle_bin'', ''5_a.txt'']"
    by (simp add: key_5_a target_5_a) (simp add: fs_defs demo_store_def demo_files_def)
  have nd: "\<not> is_dir ?S [''D:'', ''CinnaOS'', ''recycle_bin'', ''5_a.txt'']"
    by (simp add: fs_defs demo_store_def demo_files_def)
  from move_file_ok [OF demo_load demo_resolve_a demo_node_a rt nd]
  show ?thesis by (simp add: key_5_a target_5_a abspath_tmp_a)
qed

lemma demo_moved_state:
  "load_recycle_index (move_all (demo_store (JsonText (JObj []))) [(5, ''/tmp/a.txt'')])
     = JObj [(''5_a.txt'', entry ''/tmp/a.txt'' ''file'' (JStr ''D:/CinnaOS/recycle_bin/5_a.txt''))]"
  "isfile (move_all (demo_store (JsonText (JObj []))) [(5, ''/tmp/a.txt'')])
     ''D:/CinnaOS/recycle_bin/5_a.txt''"
proof -
  let ?S = "demo_store (JsonText (JObj []))"
  let ?T = "[''D:'', ''CinnaOS'', ''recycle_bin'', ''5_a.txt'']"
  let ?sB = "put (put ?S ?T (Some (File (Bytes ''hi'')))) [''tmp'', ''a.txt''] None"
  let ?idx = "JObj [(''5_a.txt'', entry ''/tmp/a.txt'' ''file'' (JStr ''D:/CinnaOS/recycle_bin/5_a.txt''))]"
  have d1: "dirs_eq ?S (put ?S ?T (Some (File (Bytes ''hi''))))"
    by (rule dirs_eq_put) (simp_all add: fs_defs demo_store_def demo_files_def)
  have "dirs_eq (put ?S ?T (Some (File (Bytes ''hi'')))) ?sB"
    by (rule dirs_eq_put) (simp_all add: fs_defs demo_store_def demo_files_def)
  with d1 have dB: "dirs_eq ?S ?sB" by (rule dirs_eq_trans)
  then have okB: "store_ok ?sB" using demo_store_ok by (simp add: store_ok_dirs_eq)
  have m: "move_all ?S [(5, ''/tmp/a.txt'')] = save_recycle_index ?sB ?idx"
    by (simp add: demo_moved)
  show "load_recycle_index (move_all ?S [(5, ''/tmp/a.txt'')]) = ?idx"
    unfolding m using okB by (rule load_save)
  have d: "dirs_eq ?S (save_recycle_index ?sB ?idx)"
    using dB dirs_eq_save by (rule dirs_eq_trans)
  have "resolve ?S ''D:/CinnaOS/recycle_bin/5_a.txt'' = Inr ?T"
    by (simp add: fs_defs demo_store_def demo_files_def)
  then have r: "resolve (save_recycle_index ?sB ?idx) ''D:/CinnaOS/recycle_bin/5_a.txt'' = Inr ?T"
    using resolve_dirs_eq [OF d] by simp
  have "?T \<noteq> index_loc ?sB" by (simp add: index_loc_def dir_loc_def)
  then have "node_at (save_recycle_index ?sB ?idx) ?T = node_at ?sB ?T"
    by (rule node_at_save_other)
  also have "\<dots> = Some (File (Bytes ''hi''))" by (simp add: node_at_put)
  finally show "isfile (move_all ?S [(5, ''/tmp/a.txt'')]) ''D:/CinnaOS/recycle_bin/5_a.txt''"
    unfolding m using r by (simp add: isfile_Inr)
qed

theorem empty_after_moves_witness:
  "load_recycle_index (demo_store (JsonText (JObj []))) = JObj []
   \<and> store_ok (demo_store (JsonText (JObj [])))
   \<and> index_saved (load_recycle_index
         (move_all (demo_store (JsonText (JObj []))) [(5, ''/tmp/a.txt'')]))
       = [''D:/CinnaOS/recycle_bin/5_a.txt'']
   \<and> isfile (move_all (demo_store (JsonText (JObj []))) [(5, ''/tmp/a.txt'')])
        ''D:/CinnaOS/recycle_bin/5_a.txt''
   \<and> fst (empty_recycle (move_all (demo_store (JsonText (JObj []))) [(5, ''/tmp/a.txt'')]))
       = Inr True
   \<and> load_recycle_index
        (snd (empty_recycle (move_all (demo_store (JsonText (JObj []))) [(5, ''/tmp/a.txt'')])))
       = JObj []
   \<and> \<not> isfile
        (snd (empty_recycle (move_all (demo_store (JsonText (JObj []))) [(5, ''/tmp/a.txt'')])))
        ''D:/CinnaOS/recycle_bin/5_a.txt''
   \<and> read_text
        (snd (empty_recycle (move_all (demo_store (JsonText (JObj []))) [(5, ''/tmp/a.txt'')])))
        RECYCLE_INDEX
       = Inr (JsonText (JObj []))
   \<and> cwd (snd (empty_recycle (move_all (demo_store (JsonText (JObj []))) [(5, ''/tmp/a.txt'')])))
       = cwd (move_all (demo_store (JsonText (JObj []))) [(5, ''/tmp/a.txt'')])"
proof -
  have h: "load_recycle_index (demo_store (JsonText (JObj []))) = JObj []"
    by (rule demo_load)
  show ?thesis
    using h demo_store_ok [of "JsonText (JObj [])"] demo_moved_state(2)
      empty_after_moves [OF h, of "[(5, ''/tmp/a.txt'')]"]
    by (simp add: Let_def demo_moved_state(1) entry_def del: move_all.simps)
qed

end
